theory Spec2Isabelle
  imports Main "HOL-Library.Word"
begin

section \<open>JavaScript strings\<close>

text \<open>
  A JavaScript string is a sequence of 16-bit code units. The regular expressions of
  the scripts carry no \<open>u\<close> flag, so they match code unit by code unit, and the
  model does the same.
\<close>

type_synonym cu = "16 word"
type_synonym jsstring = "cu list"

definition js :: "string \<Rightarrow> jsstring" where
  "js s = map of_char s"

definition is_lower :: "cu \<Rightarrow> bool" where
  "is_lower c = (0x61 \<le> c \<and> c \<le> 0x7A)"

definition is_upper :: "cu \<Rightarrow> bool" where
  "is_upper c = (0x41 \<le> c \<and> c \<le> 0x5A)"

definition is_digit :: "cu \<Rightarrow> bool" where
  "is_digit c = (0x30 \<le> c \<and> c \<le> 0x39)"

definition is_hyphen :: "cu \<Rightarrow> bool" where
  "is_hyphen c = (c = 0x2D)"

definition is_ascii :: "cu \<Rightarrow> bool" where
  "is_ascii c = (c < 0x80)"

text \<open>The class \<open>[a-z0-9]\<close> and its complement \<open>[^a-z0-9]\<close>.\<close>

definition is_alnum :: "cu \<Rightarrow> bool" where
  "is_alnum c = (is_lower c \<or> is_digit c)"

definition not_alnum :: "cu \<Rightarrow> bool" where
  "not_alnum c = (\<not> is_alnum c)"

text \<open>The class of the combining diacritical marks, U+0300 to U+036F.\<close>

definition is_combining :: "cu \<Rightarrow> bool" where
  "is_combining c = (0x300 \<le> c \<and> c \<le> 0x36F)"

subsection \<open>The host's Unicode operations\<close>

text \<open>
  \<open>String.prototype.toLowerCase\<close> and \<open>String.prototype.normalize\<close> belong to the
  JavaScript engine. On a string of ASCII code units the standard fixes them without
  any table: lowercasing maps \<open>A\<close>-\<open>Z\<close> to \<open>a\<close>-\<open>z\<close> and leaves the rest, and
  canonical decomposition changes nothing. On any other string they are given by the
  Unicode tables, which are a parameter of the model.
\<close>

record unicode =
  lower_table :: "jsstring \<Rightarrow> jsstring"
  nfd_table :: "jsstring \<Rightarrow> jsstring"

definition ascii_lower :: "cu \<Rightarrow> cu" where
  "ascii_lower c = (if is_upper c then c + 0x20 else c)"

definition ascii_upper :: "cu \<Rightarrow> cu" where
  "ascii_upper c = (if is_lower c then c - 0x20 else c)"

definition toLowerCase :: "unicode \<Rightarrow> jsstring \<Rightarrow> jsstring" where
  "toLowerCase U s = (if list_all is_ascii s then map ascii_lower s else lower_table U s)"

definition normalizeNFD :: "unicode \<Rightarrow> jsstring \<Rightarrow> jsstring" where
  "normalizeNFD U s = (if list_all is_ascii s then s else nfd_table U s)"

text \<open>A host whose tables are never consulted on ASCII input; used for concrete runs.\<close>

definition plain_host :: unicode where
  "plain_host = \<lparr> lower_table = (\<lambda>s. s), nfd_table = (\<lambda>s. s) \<rparr>"

subsection \<open>Regular-expression replacements\<close>

text \<open>
  \<open>s.replace(/[C]+/g, rep)\<close> for a character class \<open>C\<close>: the scan goes left to right;
  at a code unit of the class the greedy \<open>+\<close> takes the whole run, which is replaced by
  \<open>rep\<close>, and the scan goes on behind the run.
\<close>

function replace_runs :: "(cu \<Rightarrow> bool) \<Rightarrow> jsstring \<Rightarrow> jsstring \<Rightarrow> jsstring" where
  "replace_runs P rep [] = []"
| "replace_runs P rep (c # s) =
     (if P c then rep @ replace_runs P rep (dropWhile P s)
      else c # replace_runs P rep s)"
  by pat_completeness auto
termination
  by (relation "measure (\<lambda>(P, rep, s). length s)")
     (auto simp: length_dropWhile_le less_Suc_eq_le)

text \<open>
  \<open>s.replace(/C+$/, "")\<close>: the leftmost position from which only code units of the
  class follow up to the end of the string is where the match starts.
\<close>

fun strip_trailing :: "(cu \<Rightarrow> bool) \<Rightarrow> jsstring \<Rightarrow> jsstring" where
  "strip_trailing P [] = []"
| "strip_trailing P (c # s) = (if list_all P (c # s) then [] else c # strip_trailing P s)"

text \<open>
  \<open>s.replace(/^C+|C+$/g, "")\<close>: the first alternative can match at position 0 only
  and takes the leading run of the class; behind it the second alternative finds the
  trailing run.
\<close>

definition strip_both :: "(cu \<Rightarrow> bool) \<Rightarrow> jsstring \<Rightarrow> jsstring" where
  "strip_both P s = strip_trailing P (dropWhile P s)"

text \<open>
  \<open>s.replace(/--+/g, "-")\<close>: a hyphen followed by a hyphen starts a match, the greedy
  \<open>+\<close> takes every hyphen that follows, and the run is replaced by one hyphen.
\<close>

function collapse_hyphens :: "jsstring \<Rightarrow> jsstring" where
  "collapse_hyphens [] = []"
| "collapse_hyphens (c # s) =
     (if is_hyphen c \<and> (case s of [] \<Rightarrow> False | d # _ \<Rightarrow> is_hyphen d)
      then c # collapse_hyphens (dropWhile is_hyphen s)
      else c # collapse_hyphens s)"
  by pat_completeness auto
termination
  by (relation "measure length") (auto simp: length_dropWhile_le less_Suc_eq_le)

text \<open>
  Matching a literal under the \<open>i\<close> flag: without the \<open>u\<close> flag a code unit outside
  ASCII never canonicalises to an ASCII letter, so a literal of ASCII characters matches
  exactly the texts that agree with it up to the case of the letters \<open>a\<close>-\<open>z\<close>.
\<close>

definition ci_match :: "jsstring \<Rightarrow> jsstring \<Rightarrow> bool" where
  "ci_match pat t = (map ascii_upper pat = map ascii_upper t)"

text \<open>\<open>s.endsWith(t)\<close>.\<close>

definition endsWith :: "jsstring \<Rightarrow> jsstring \<Rightarrow> bool" where
  "endsWith s t = (length t \<le> length s \<and> drop (length s - length t) s = t)"

text \<open>\<open>xs.join(sep)\<close> on an array of strings.\<close>

fun join :: "jsstring \<Rightarrow> jsstring list \<Rightarrow> jsstring" where
  "join sep [] = []"
| "join sep [x] = x"
| "join sep (x # y # ys) = x @ sep @ join sep (y # ys)"

section \<open>The slug normalizer\<close>

definition slugify :: "unicode \<Rightarrow> jsstring \<Rightarrow> jsstring" where
  "slugify U v =
     strip_both is_hyphen
       (replace_runs not_alnum (js ''-'')
          (filter (\<lambda>c. \<not> is_combining c)
             (normalizeNFD U (toLowerCase U v))))"

section \<open>The filename parser\<close>

text \<open>
  A JavaScript number that holds a non-negative integer, or \<open>Infinity\<close>. These are the
  only values \<open>Number\<close> gives on a string of decimal digits.
\<close>

datatype number = Integral nat | PosInfinity

fun bit_length :: "nat \<Rightarrow> nat" where
  "bit_length n = (if n = 0 then 0 else Suc (bit_length (n div 2)))"

declare bit_length.simps [simp del]

text \<open>
  The IEEE 754 double nearest to a natural number, ties to even: below \<open>2^53\<close> every
  natural number is a double; above, the 53 leading bits are kept and the rest is
  rounded; a result of \<open>2^1024\<close> or more is \<open>Infinity\<close>.
\<close>

definition round_to_double :: "nat \<Rightarrow> number" where
  "round_to_double n =
     (if n < 2 ^ 53 then Integral n
      else
        let e = bit_length n - 53;
            q = n div 2 ^ e;
            r = n mod 2 ^ e;
            h = 2 ^ (e - 1);
            q' = (if h < r \<or> (r = h \<and> odd q) then q + 1 else q);
            v = q' * 2 ^ e
        in if 2 ^ 1024 \<le> v then PosInfinity else Integral v)"

definition digits_value :: "jsstring \<Rightarrow> nat" where
  "digits_value ds = foldl (\<lambda>a d. 10 * a + unat (d - 0x30)) 0 ds"

text \<open>
  \<open>Number(ds)\<close> on a non-empty string of decimal digits, which is all the capture group
  \<open>(\d+)\<close> can hold: the double nearest to the decimal value. (Beyond 20 significant
  digits the standard allows an engine to round the decimal first; up to 20 digits, and
  so for every value up to \<open>2^53\<close>, the result is fixed.)
\<close>

definition Number :: "jsstring \<Rightarrow> number" where
  "Number ds = round_to_double (digits_value ds)"

text \<open>
  \<open>fileName.replace(/\.svg$/i, "")\<close>: the match starts at the leftmost position whose
  rest of the string is the suffix, in any case.
\<close>

fun strip_svg :: "jsstring \<Rightarrow> jsstring" where
  "strip_svg [] = []"
| "strip_svg (c # s) = (if ci_match (js ''.svg'') (c # s) then [] else c # strip_svg s)"

text \<open>
  \<open>s.match(/_(\d+)_/)\<close>: the leftmost position with an underscore, then one digit or
  more, then an underscore. The greedy \<open>\d+\<close> takes the whole run of digits, and
  giving digits back cannot help, as the code unit behind a shorter run is a digit. The
  result is capture group 1.
\<close>

fun match_size :: "jsstring \<Rightarrow> jsstring option" where
  "match_size [] = None"
| "match_size (c # s) =
     (if c = 0x5F \<and> takeWhile is_digit s \<noteq> [] \<and>
         (case dropWhile is_digit s of [] \<Rightarrow> False | d # _ \<Rightarrow> d = 0x5F)
      then Some (takeWhile is_digit s)
      else match_size s)"

definition style_names :: "jsstring list" where
  "style_names = [js ''regular'', js ''filled'', js ''light'', js ''bold'', js ''outline'']"

text \<open>
  \<open>s.match(/_(regular|filled|light|bold|outline)$/i)\<close>: the leftmost position with an
  underscore whose rest of the string is one of the alternatives, in any case. The
  result is capture group 1.
\<close>

fun match_style :: "jsstring \<Rightarrow> jsstring option" where
  "match_style [] = None"
| "match_style (c # s) =
     (if c = 0x5F \<and> list_ex (\<lambda>alt. ci_match alt s) style_names then Some s
      else match_style s)"

record FileDetails =
  size_d :: "number option"
  style_d :: "jsstring option"
  baseName :: jsstring

definition parseFileDetails :: "unicode \<Rightarrow> jsstring \<Rightarrow> FileDetails" where
  "parseFileDetails U fileName =
     (let withoutExtension = strip_svg fileName;
          sizeMatch = match_size withoutExtension;
          styleMatch = match_style withoutExtension
      in \<lparr> size_d = (case sizeMatch of
                         None \<Rightarrow> None
                       | Some g \<Rightarrow> if g \<noteq> [] then Some (Number g) else None),
           style_d = map_option (toLowerCase U) styleMatch,
           baseName = withoutExtension \<rparr>)"

section \<open>Descriptors and the asset tree\<close>

text \<open>
  What \<open>JSON.parse\<close> returns. A number is kept as its text: the scripts only pass it on.
  An object is the list of its members, each key once.
\<close>

datatype json =
    JNull
  | JBool bool
  | JNumber jsstring
  | JString jsstring
  | JArray "json list"
  | JObject "(jsstring \<times> json) list"

text \<open>
  Reading a property the scripts ask for (\<open>name\<close>, \<open>description\<close>, \<open>keyword\<close>,
  \<open>metaphor\<close>): only an object can have it; \<open>None\<close> is \<open>undefined\<close>.
\<close>

fun get_prop :: "json \<Rightarrow> jsstring \<Rightarrow> json option" where
  "get_prop (JObject kvs) k = map_of kvs k"
| "get_prop _ k = None"

text \<open>\<open>v ?? d\<close>: the default replaces \<open>undefined\<close> and \<open>null\<close>.\<close>

fun nullish :: "json option \<Rightarrow> json \<Rightarrow> json" where
  "nullish None d = d"
| "nullish (Some JNull) d = d"
| "nullish (Some v) d = v"

text \<open>
  A file is represented by what \<open>readFile\<close> followed by \<open>JSON.parse\<close> makes of it: the
  read throws, the parse throws, or a value comes back. A directory is the list of its
  entries, or \<open>None\<close> when it cannot be opened.
\<close>

datatype file_content = Unreadable | Malformed | Parsed json

datatype fsnode = File file_content | Dir "(jsstring \<times> fsnode) list option"

text \<open>
  \<open>readJsonFile(path.join(categoryDir, "metadata.json"))\<close>, on the entries of the
  category directory. \<open>None\<close> is the \<open>null\<close> of the \<open>catch\<close> branch.
\<close>

definition readJsonFile :: "(jsstring \<times> fsnode) list \<Rightarrow> json option" where
  "readJsonFile children =
     (case map_of children (js ''metadata.json'') of
        Some (File (Parsed v)) \<Rightarrow> Some v
      | _ \<Rightarrow> None)"

section \<open>The catalog builder\<close>

record IconRecord =
  id_r :: jsstring
  category :: jsstring
  categorySlug :: jsstring
  name :: json
  description :: "json option"
  keyword :: "json option"
  tags :: json
  size_r :: "number option"
  style_r :: "jsstring option"
  file_r :: jsstring
  relativePath :: jsstring
  cdnUrl :: "jsstring option"

datatype manifest_error = RootUnreadable | SvgDirUnreadable | URIError

subsection \<open>\<open>encodeURIComponent\<close>\<close>

definition uri_unreserved :: "cu \<Rightarrow> bool" where
  "uri_unreserved c = (is_lower c \<or> is_upper c \<or> is_digit c \<or> c \<in> set (js ''-_.!~*()'') \<or> c = 0x27)"

definition hex_digit :: "nat \<Rightarrow> cu" where
  "hex_digit n = (if n < 10 then of_nat (0x30 + n) else of_nat (0x41 + (n - 10)))"

definition percent :: "nat \<Rightarrow> jsstring" where
  "percent b = [0x25, hex_digit (b div 16), hex_digit (b mod 16)]"

definition utf8 :: "nat \<Rightarrow> nat list" where
  "utf8 v =
     (if v < 0x80 then [v]
      else if v < 0x800 then [0xC0 + v div 64, 0x80 + v mod 64]
      else if v < 0x10000 then [0xE0 + v div 4096, 0x80 + (v div 64) mod 64, 0x80 + v mod 64]
      else [0xF0 + v div 262144, 0x80 + (v div 4096) mod 64, 0x80 + (v div 64) mod 64,
            0x80 + v mod 64])"

definition is_high_surrogate :: "cu \<Rightarrow> bool" where
  "is_high_surrogate c = (0xD800 \<le> c \<and> c \<le> 0xDBFF)"

definition is_low_surrogate :: "cu \<Rightarrow> bool" where
  "is_low_surrogate c = (0xDC00 \<le> c \<and> c \<le> 0xDFFF)"

definition escape :: "nat \<Rightarrow> jsstring" where
  "escape v = concat (map percent (utf8 v))"

text \<open>\<open>None\<close> is the \<open>URIError\<close> thrown on a surrogate without its partner.\<close>

fun encodeURIComponent :: "jsstring \<Rightarrow> jsstring option" where
  "encodeURIComponent [] = Some []"
| "encodeURIComponent [c] =
     (if uri_unreserved c then Some [c]
      else if is_low_surrogate c \<or> is_high_surrogate c then None
      else Some (escape (unat c)))"
| "encodeURIComponent (c # d # s) =
     (if uri_unreserved c then map_option ((#) c) (encodeURIComponent (d # s))
      else if is_low_surrogate c then None
      else if is_high_surrogate c then
        (if is_low_surrogate d
         then map_option ((@) (escape ((unat c - 0xD800) * 0x400 + (unat d - 0xDC00) + 0x10000)))
                (encodeURIComponent s)
         else None)
      else map_option ((@) (escape (unat c))) (encodeURIComponent (d # s)))"

subsection \<open>The remote base location\<close>

definition is_slash :: "cu \<Rightarrow> bool" where
  "is_slash c = (c = 0x2F)"

text \<open>
  The constant \<open>ICON_CDN_BASE_URL\<close>, from the value of the environment variable of the
  same name (\<open>None\<close>: not set). A string is truthy when it is not empty.
\<close>

definition ICON_CDN_BASE_URL :: "jsstring option \<Rightarrow> jsstring option" where
  "ICON_CDN_BASE_URL v =
     (case v of
        None \<Rightarrow> None
      | Some b \<Rightarrow> if b \<noteq> [] then Some (strip_trailing is_slash b) else None)"

definition cdn_url :: "jsstring option \<Rightarrow> jsstring \<Rightarrow> jsstring \<Rightarrow> manifest_error + jsstring option" where
  "cdn_url base entryName svgFile =
     (case base of
        None \<Rightarrow> Inr None
      | Some b \<Rightarrow>
          if b \<noteq> [] then
            (case encodeURIComponent entryName of
               None \<Rightarrow> Inl URIError
             | Some c \<Rightarrow>
                 (case encodeURIComponent svgFile of
                    None \<Rightarrow> Inl URIError
                  | Some f \<Rightarrow> Inr (Some (b @ js ''/'' @ c @ js ''/SVG/'' @ f))))
          else Inr None)"

subsection \<open>Records\<close>

text \<open>
  \<open>path.join\<close> on relative segments that are directory-entry names (not empty, without
  a separator, neither \<open>.\<close> nor \<open>..\<close>): its normalisation leaves them as they are.
\<close>

definition path_join :: "jsstring list \<Rightarrow> jsstring" where
  "path_join segs = join (js ''/'') segs"

text \<open>The body of the inner loop, for a file that passed the suffix test.\<close>

definition make_record ::
    "unicode \<Rightarrow> jsstring option \<Rightarrow> jsstring \<Rightarrow> json \<Rightarrow> jsstring \<Rightarrow> manifest_error + IconRecord" where
  "make_record U base entryName metadata svgFile =
     (let d = parseFileDetails U svgFile;
          slug = slugify U entryName;
          rel = path_join [js ''assets'', entryName, js ''SVG'', svgFile];
          ident = collapse_hyphens (slug @ js ''-'' @ baseName d)
      in case cdn_url base entryName svgFile of
           Inl e \<Rightarrow> Inl e
         | Inr url \<Rightarrow>
             Inr \<lparr> id_r = ident,
                   category = entryName,
                   categorySlug = slug,
                   name = nullish (get_prop metadata (js ''name'')) (JString entryName),
                   description = get_prop metadata (js ''description''),
                   keyword = get_prop metadata (js ''keyword''),
                   tags = nullish (get_prop metadata (js ''metaphor'')) (JArray []),
                   size_r = size_d d,
                   style_r = style_d d,
                   file_r = svgFile,
                   relativePath = rel,
                   cdnUrl = url \<rparr>)"

text \<open>The inner loop over the names in the image subfolder.\<close>

fun svg_records ::
    "unicode \<Rightarrow> jsstring option \<Rightarrow> jsstring \<Rightarrow> json \<Rightarrow> jsstring list \<Rightarrow> manifest_error + IconRecord list" where
  "svg_records U base entryName metadata [] = Inr []"
| "svg_records U base entryName metadata (svgFile # rest) =
     (if \<not> endsWith (toLowerCase U svgFile) (js ''.svg'')
      then svg_records U base entryName metadata rest
      else case make_record U base entryName metadata svgFile of
             Inl e \<Rightarrow> Inl e
           | Inr r \<Rightarrow>
               (case svg_records U base entryName metadata rest of
                  Inl e \<Rightarrow> Inl e
                | Inr rs \<Rightarrow> Inr (r # rs)))"

text \<open>
  The body of the outer loop for one entry of the asset root: \<open>entry.isDirectory()\<close>,
  \<open>stat\<close> of the image subfolder inside \<open>try\<close> (it throws when the subfolder is missing
  or the category directory cannot be opened), the descriptor, the listing of the
  subfolder (outside any \<open>try\<close>), the inner loop.
\<close>

definition category_records ::
    "unicode \<Rightarrow> jsstring option \<Rightarrow> jsstring \<times> fsnode \<Rightarrow> manifest_error + IconRecord list" where
  "category_records U base entry =
     (case snd entry of
        File _ \<Rightarrow> Inr []
      | Dir None \<Rightarrow> Inr []
      | Dir (Some children) \<Rightarrow>
          (case map_of children (js ''SVG'') of
             None \<Rightarrow> Inr []
           | Some (File _) \<Rightarrow> Inr []
           | Some (Dir listing) \<Rightarrow>
               (let metadata = nullish (readJsonFile children) (JObject [])
                in case listing of
                     None \<Rightarrow> Inl SvgDirUnreadable
                   | Some svgFiles \<Rightarrow>
                       svg_records U base (fst entry) metadata (map fst svgFiles))))"

fun walk ::
    "unicode \<Rightarrow> jsstring option \<Rightarrow> (jsstring \<times> fsnode) list \<Rightarrow> manifest_error + IconRecord list" where
  "walk U base [] = Inr []"
| "walk U base (entry # entries) =
     (case category_records U base entry of
        Inl e \<Rightarrow> Inl e
      | Inr rs \<Rightarrow>
          (case walk U base entries of
             Inl e \<Rightarrow> Inl e
           | Inr rs' \<Rightarrow> Inr (rs @ rs')))"

record manifest =
  generatedAt :: jsstring
  count :: nat
  icons :: "IconRecord list"

text \<open>
  \<open>generateManifest\<close>: \<open>env\<close> is the value of the environment variable
  \<open>ICON_CDN_BASE_URL\<close>, \<open>now\<close> the timestamp, \<open>root\<close> the node at the asset root. The
  result is the object handed to \<open>JSON.stringify\<close>, whose text goes to the output path
  in one call of \<open>writeFile\<close>.
\<close>

definition generateManifest ::
    "unicode \<Rightarrow> jsstring option \<Rightarrow> jsstring \<Rightarrow> fsnode \<Rightarrow> manifest_error + manifest" where
  "generateManifest U env now root =
     (case root of
        Dir (Some entries) \<Rightarrow>
          (case walk U (ICON_CDN_BASE_URL env) entries of
             Inl e \<Rightarrow> Inl e
           | Inr rs \<Rightarrow> Inr \<lparr> generatedAt = now, count = length rs, icons = rs \<rparr>)
      | _ \<Rightarrow> Inl RootUnreadable)"

section \<open>The manifest writer\<close>

text \<open>
  The effects of the generator on the file system are a sequence of operations on a
  disk, which maps a path to the content of the file there. An external reader sees the
  disk before the first operation, between two operations and after the last one.
  \<open>Rename\<close> is what an atomic finalisation would use; the generator never issues it.
\<close>

datatype fs_op = Truncate jsstring | Write jsstring jsstring | Rename jsstring jsstring

type_synonym disk = "jsstring \<rightharpoonup> jsstring"

fun apply_op :: "fs_op \<Rightarrow> disk \<Rightarrow> disk" where
  "apply_op (Truncate p) d = d(p \<mapsto> [])"
| "apply_op (Write p x) d = d(p \<mapsto> (case d p of None \<Rightarrow> x | Some c \<Rightarrow> c @ x))"
| "apply_op (Rename p q) d = (d(q := d p))(p := None)"

text \<open>The disks a reader can see while the operations run, in order.\<close>

fun states :: "fs_op list \<Rightarrow> disk \<Rightarrow> disk list" where
  "states [] d = [d]"
| "states (x # xs) d = d # states xs (apply_op x d)"

text \<open>
  \<open>writeFile(path, data)\<close> of \<open>fs/promises\<close>, from the Node.js documentation: the path
  is opened with the flag \<open>w\<close>, which creates the file or truncates it, and then the
  data is written.
\<close>

definition writeFile :: "jsstring \<Rightarrow> jsstring \<Rightarrow> fs_op list" where
  "writeFile p data = [Truncate p, Write p data]"

text \<open>The output path, relative to the working directory.\<close>

definition OUTPUT_FILE :: jsstring where
  "OUTPUT_FILE = js ''assets_manifest.json''"

text \<open>
  The last step of \<open>generateManifest\<close>: one \<open>writeFile\<close> on the output path, with the
  text that \<open>JSON.stringify\<close> made of the manifest.
\<close>

definition write_manifest :: "jsstring \<Rightarrow> fs_op list" where
  "write_manifest text = writeFile OUTPUT_FILE text"

section \<open>The uploader\<close>

text \<open>The variables of \<open>process.env\<close> that \<open>getConfig\<close> reads; \<open>None\<close> is \<open>undefined\<close>.\<close>

record process_env =
  R2_ACCOUNT_ID :: "jsstring option"
  R2_ACCESS_KEY_ID :: "jsstring option"
  R2_SECRET_ACCESS_KEY :: "jsstring option"
  R2_BUCKET_NAME :: "jsstring option"
  R2_PREFIX :: "jsstring option"

record UploadConfig =
  accountId :: jsstring
  accessKeyId :: jsstring
  secretAccessKey :: jsstring
  bucketName :: jsstring
  prefix :: "jsstring option"

datatype upload_error = Error jsstring | AssetsDirError | ReadFileError

text \<open>\<open>!v\<close> on a string or \<open>undefined\<close>.\<close>

definition falsy :: "jsstring option \<Rightarrow> bool" where
  "falsy v = (case v of None \<Rightarrow> True | Some s \<Rightarrow> s = [])"

text \<open>\<open>v!\<close>, the non-null assertion, which is reached with a string only.\<close>

definition asserted :: "jsstring option \<Rightarrow> jsstring" where
  "asserted v = (case v of None \<Rightarrow> [] | Some s \<Rightarrow> s)"

definition missing_settings :: "process_env \<Rightarrow> jsstring list" where
  "missing_settings env =
     (if falsy (R2_ACCOUNT_ID env) then [js ''R2_ACCOUNT_ID''] else []) @
     (if falsy (R2_ACCESS_KEY_ID env) then [js ''R2_ACCESS_KEY_ID''] else []) @
     (if falsy (R2_SECRET_ACCESS_KEY env) then [js ''R2_SECRET_ACCESS_KEY''] else []) @
     (if falsy (R2_BUCKET_NAME env) then [js ''R2_BUCKET_NAME''] else [])"

definition getConfig :: "process_env \<Rightarrow> upload_error + UploadConfig" where
  "getConfig env =
     (let missing = missing_settings env
      in if 0 < length missing
         then Inl (Error (js ''Missing required environment variables: '' @ join (js '', '') missing))
         else Inr \<lparr> accountId = asserted (R2_ACCOUNT_ID env),
                    accessKeyId = asserted (R2_ACCESS_KEY_ID env),
                    secretAccessKey = asserted (R2_SECRET_ACCESS_KEY env),
                    bucketName = asserted (R2_BUCKET_NAME env),
                    prefix = map_option (strip_both is_slash) (R2_PREFIX env) \<rparr>)"

text \<open>
  What the outside world answers to one run: whether \<open>readFile\<close> of an asset resolves,
  and whether the \<open>n\<close>-th \<open>client.send\<close> for an object key resolves.
\<close>

record upload_world =
  readable :: "jsstring \<Rightarrow> bool"
  send_ok :: "jsstring \<Rightarrow> nat \<Rightarrow> bool"

definition upload_key :: "UploadConfig \<Rightarrow> jsstring \<Rightarrow> jsstring" where
  "upload_key config relPath =
     join (js ''/'')
       (map (map (\<lambda>c. if c = 0x5C then 0x2F else c))
          (map asserted (filter (\<lambda>v. \<not> falsy v) [prefix config, Some relPath])))"

text \<open>
  The retry loop of \<open>uploadFile\<close>; the waiting between two attempts takes time and
  changes nothing else.
\<close>

function attempts :: "(nat \<Rightarrow> bool) \<Rightarrow> nat \<Rightarrow> nat \<Rightarrow> bool" where
  "attempts send retries attempt =
     (if attempt \<le> retries then
        (if send attempt then True
         else if attempt = retries then False
         else attempts send retries (attempt + 1))
      else False)"
  by pat_completeness auto
termination
  by (relation "measure (\<lambda>(send, retries, attempt). Suc retries - attempt)") auto

declare attempts.simps [simp del]

text \<open>
  \<open>uploadFile\<close>: \<open>Inl\<close> is a rejected promise (\<open>readFile\<close> stands before the \<open>try\<close>),
  \<open>Inr\<close> a promise resolved with the boolean.
\<close>

definition uploadFile :: "upload_world \<Rightarrow> UploadConfig \<Rightarrow> jsstring \<Rightarrow> nat \<Rightarrow> upload_error + bool" where
  "uploadFile W config relPath retries =
     (if \<not> readable W relPath then Inl ReadFileError
      else Inr (attempts (send_ok W (upload_key config relPath)) retries 1))"

text \<open>
  \<open>uploadBatch\<close>: \<open>Promise.all\<close> rejects as soon as one of the promises rejects, and
  resolves with all results otherwise.
\<close>

definition uploadBatch :: "upload_world \<Rightarrow> UploadConfig \<Rightarrow> jsstring list \<Rightarrow> upload_error + nat \<times> nat" where
  "uploadBatch W config files =
     (let results = map (\<lambda>f. uploadFile W config f 5) files
      in if list_ex isl results then Inl ReadFileError
         else
           (let success = length (filter (\<lambda>r. r = Inr True) results);
                failed = length results - success
            in Inr (success, failed)))"

definition BATCH_SIZE :: nat where
  "BATCH_SIZE = 50"

function make_batches :: "jsstring list \<Rightarrow> nat \<Rightarrow> jsstring list list" where
  "make_batches files i =
     (if i < length files
      then take BATCH_SIZE (drop i files) # make_batches files (i + BATCH_SIZE)
      else [])"
  by pat_completeness auto
termination
  by (relation "measure (\<lambda>(files, i). length files - i)") (auto simp: BATCH_SIZE_def)

declare make_batches.simps [simp del]

text \<open>
  A run of the uploader: the files for which \<open>uploadFile\<close> was called, and how \<open>main\<close>
  ended, with the totals of succeeded and failed files when it returned.
\<close>

record run =
  started :: "jsstring list"
  outcome :: "upload_error + nat \<times> nat"

fun batch_loop ::
    "upload_world \<Rightarrow> UploadConfig \<Rightarrow> jsstring list list \<Rightarrow> nat \<Rightarrow> nat \<Rightarrow> jsstring list \<Rightarrow> run" where
  "batch_loop W config [] totalSuccess totalFailed st =
     \<lparr> started = st, outcome = Inr (totalSuccess, totalFailed) \<rparr>"
| "batch_loop W config (b # bs) totalSuccess totalFailed st =
     (case uploadBatch W config b of
        Inl e \<Rightarrow> \<lparr> started = st @ b, outcome = Inl e \<rparr>
      | Inr (success, failed) \<Rightarrow>
          batch_loop W config bs (totalSuccess + success) (totalFailed + failed) (st @ b))"

text \<open>
  \<open>main\<close>: \<open>assets\<close> tells whether \<open>stat\<close> finds the asset directory, \<open>files\<close> is
  the list \<open>collectSvgFiles\<close> returns.
\<close>

definition main :: "upload_world \<Rightarrow> process_env \<Rightarrow> bool \<Rightarrow> jsstring list \<Rightarrow> run" where
  "main W env assets files =
     (case getConfig env of
        Inl e \<Rightarrow> \<lparr> started = [], outcome = Inl e \<rparr>
      | Inr config \<Rightarrow>
          if \<not> assets then \<lparr> started = [], outcome = Inl AssetsDirError \<rparr>
          else if length files = 0 then \<lparr> started = [], outcome = Inr (0, 0) \<rparr>
          else batch_loop W config (make_batches files 0) 0 0 [])"

section \<open>Auxiliary notions for the statements\<close>

text \<open>No two hyphens side by side.\<close>

fun no_adjacent :: "jsstring \<Rightarrow> bool" where
  "no_adjacent (a # b # s) = (\<not> (is_hyphen a \<and> is_hyphen b) \<and> no_adjacent (b # s))"
| "no_adjacent _ = True"

text \<open>The code units a slug is made of.\<close>

definition slug_char :: "cu \<Rightarrow> bool" where
  "slug_char c = (is_lower c \<or> is_digit c \<or> is_hyphen c)"

text \<open>
  An underscore-delimited run of digits: at position \<open>i\<close> of \<open>s\<close> stands an underscore,
  then the digits \<open>ds\<close> (at least one), then an underscore.
\<close>

definition size_token :: "jsstring \<Rightarrow> nat \<Rightarrow> jsstring \<Rightarrow> bool" where
  "size_token s i ds =
     (ds \<noteq> [] \<and> list_all is_digit ds \<and> take (length ds + 2) (drop i s) = 0x5F # ds @ [0x5F])"

text \<open>
  The stem of a filename: the name without its last four code units when these are
  \<open>.svg\<close> in any case, the whole name otherwise.
\<close>

definition stem_of :: "jsstring \<Rightarrow> jsstring" where
  "stem_of n =
     (if 4 \<le> length n \<and> ci_match (js ''.svg'') (drop (length n - 4) n)
      then take (length n - 4) n else n)"

text \<open>
  Collapsing every run of consecutive hyphens to one hyphen, said directly: a hyphen in
  front of a hyphen is dropped.
\<close>

fun squeeze_hyphens :: "jsstring \<Rightarrow> jsstring" where
  "squeeze_hyphens (a # b # s) =
     (if is_hyphen a \<and> is_hyphen b then squeeze_hyphens (b # s) else a # squeeze_hyphens (b # s))"
| "squeeze_hyphens s = s"

text \<open>
  The asset root of the end-to-end example: one category \<open>Access Time\<close> with its
  descriptor and one file in the image subfolder.
\<close>

definition access_time_descriptor :: json where
  "access_time_descriptor =
     JObject [(js ''name'', JString (js ''Access Time'')),
              (js ''keyword'', JString (js ''fluent-icon'')),
              (js ''metaphor'', JArray [JString (js ''number''), JString (js ''24''),
                                         JString (js ''Circle'')])]"

definition access_time_category :: "jsstring \<times> fsnode" where
  "access_time_category =
     (js ''Access Time'',
      Dir (Some [(js ''metadata.json'', File (Parsed access_time_descriptor)),
                 (js ''SVG'', Dir (Some [(js ''access_time_20_filled.svg'', File Malformed)]))]))"

definition access_time_root :: fsnode where
  "access_time_root = Dir (Some [access_time_category])"

text \<open>
  A root whose only category has a label without any letter or digit, and holds a file
  whose stem starts and ends with a run of hyphens.
\<close>

definition punctuation_root :: fsnode where
  "punctuation_root =
     Dir (Some [(js ''!?'', Dir (Some [(js ''SVG'', Dir (Some [(js ''--x--.svg'', File Malformed)]))]))])"

text \<open>A name that \<open>encodeURIComponent\<close> accepts: no surrogate without its partner.\<close>

definition encodable :: "jsstring \<Rightarrow> bool" where
  "encodable s = (encodeURIComponent s \<noteq> None)"

text \<open>A category without descriptor, holding one image and one other file.\<close>

definition undescribed_children :: "(jsstring \<times> fsnode) list" where
  "undescribed_children =
     [(js ''SVG'', Dir (Some [(js ''a.svg'', File Malformed), (js ''notes.txt'', File Unreadable)]))]"

text \<open>The entries of a category directory whose image subfolder is missing.\<close>

definition descriptor_only :: "(jsstring \<times> fsnode) list" where
  "descriptor_only = [(js ''metadata.json'', File Malformed)]"

text \<open>The contents a reader can find at a path while the operations run.\<close>

definition observable :: "jsstring \<Rightarrow> fs_op list \<Rightarrow> disk \<Rightarrow> jsstring option list" where
  "observable p ops d = map (\<lambda>d'. d' p) (states ops d)"

text \<open>
  An all-or-nothing write of \<open>new\<close> to \<open>p\<close>: whatever a reader finds at \<open>p\<close> is the
  prior content or the complete new one.
\<close>

definition all_or_nothing :: "jsstring \<Rightarrow> fs_op list \<Rightarrow> disk \<Rightarrow> jsstring \<Rightarrow> bool" where
  "all_or_nothing p ops d new = list_all (\<lambda>c. c = d p \<or> c = Some new) (observable p ops d)"

text \<open>Writing to a temporary path and renaming it to the final one.\<close>

definition write_via_temp :: "jsstring \<Rightarrow> jsstring \<Rightarrow> jsstring \<Rightarrow> fs_op list" where
  "write_via_temp tmp p text = writeFile tmp text @ [Rename tmp p]"

text \<open>
  The four required settings of the uploader, and those of them that are absent: not
  set, or set to the empty string, which the script does not tell apart.
\<close>

definition required_settings :: "(jsstring \<times> (process_env \<Rightarrow> jsstring option)) list" where
  "required_settings =
     [(js ''R2_ACCOUNT_ID'', R2_ACCOUNT_ID),
      (js ''R2_ACCESS_KEY_ID'', R2_ACCESS_KEY_ID),
      (js ''R2_SECRET_ACCESS_KEY'', R2_SECRET_ACCESS_KEY),
      (js ''R2_BUCKET_NAME'', R2_BUCKET_NAME)]"

definition absent_settings :: "process_env \<Rightarrow> jsstring list" where
  "absent_settings env = map fst (filter (\<lambda>(n, get). falsy (get env)) required_settings)"

text \<open>An environment with two of the required settings absent, and a complete one.\<close>

definition partial_env :: process_env where
  "partial_env =
     \<lparr> R2_ACCOUNT_ID = Some (js ''acc''), R2_ACCESS_KEY_ID = None,
       R2_SECRET_ACCESS_KEY = Some [], R2_BUCKET_NAME = Some (js ''icons''),
       R2_PREFIX = None \<rparr>"

definition complete_env :: process_env where
  "complete_env =
     \<lparr> R2_ACCOUNT_ID = Some (js ''acc''), R2_ACCESS_KEY_ID = Some (js ''key''),
       R2_SECRET_ACCESS_KEY = Some (js ''secret''), R2_BUCKET_NAME = Some (js ''icons''),
       R2_PREFIX = Some (js ''/v1/'') \<rparr>"

text \<open>
  A run of the uploader over 51 files, two batches, in which the first file cannot be
  read and every upload request succeeds. The files are \<open>a.svg\<close>, then \<open>b.svg\<close>,
  \<open>bb.svg\<close> and so on up to 49 letters, then \<open>c.svg\<close>.
\<close>

definition b_files :: "jsstring list" where
  "b_files = map (\<lambda>n. replicate (Suc n) 0x62 @ js ''.svg'') [0..<49]"

definition fifty_one_files :: "jsstring list" where
  "fifty_one_files = js ''a.svg'' # b_files @ [js ''c.svg'']"

definition first_unreadable :: upload_world where
  "first_unreadable = \<lparr> readable = (\<lambda>p. p \<noteq> js ''a.svg''), send_ok = (\<lambda>k n. True) \<rparr>"

section \<open>Properties of the slug normalizer\<close>

lemma hyphen_not_alnum: "is_hyphen c \<Longrightarrow> not_alnum c"
  by (auto simp: is_hyphen_def not_alnum_def is_alnum_def is_lower_def is_digit_def)

lemma alnum_ascii: "is_alnum c \<Longrightarrow> is_ascii c"
  unfolding is_alnum_def is_lower_def is_digit_def is_ascii_def
  by (auto simp: word_le_nat_alt word_less_nat_alt)

lemma slug_char_ascii: "slug_char c \<Longrightarrow> is_ascii c"
  unfolding slug_char_def is_hyphen_def is_lower_def is_digit_def is_ascii_def
  by (auto simp: word_le_nat_alt word_less_nat_alt)

lemma slug_char_not_upper: "slug_char c \<Longrightarrow> \<not> is_upper c"
  unfolding slug_char_def is_hyphen_def is_lower_def is_digit_def is_upper_def
  by (auto simp: word_le_nat_alt word_less_nat_alt)

lemma slug_char_not_combining: "slug_char c \<Longrightarrow> \<not> is_combining c"
  unfolding slug_char_def is_hyphen_def is_lower_def is_digit_def is_combining_def
  by (auto simp: word_le_nat_alt word_less_nat_alt)

lemma strip_trailing_all: "list_all P s \<Longrightarrow> strip_trailing P s = []"
  by (cases s) auto

lemma strip_trailing_rev: "strip_trailing P s = rev (dropWhile P (rev s))"
proof (induction s)
  case Nil
  show ?case by simp
next
  case (Cons c s)
  show ?case
  proof (cases "list_all P s")
    case True
    then have "\<forall>x\<in>set (rev s). P x" by (simp add: list_all_iff)
    then have "dropWhile P (rev s @ [c]) = dropWhile P [c]"
      by (simp add: dropWhile_append)
    with True show ?thesis by (simp add: strip_trailing_all)
  next
    case False
    then have "\<exists>x\<in>set (rev s). \<not> P x" by (simp add: list_all_iff)
    then have "dropWhile P (rev s @ [c]) = dropWhile P (rev s) @ [c]"
      by (auto simp add: dropWhile_append)
    with False Cons show ?thesis by simp
  qed
qed

lemma replace_runs_not: "\<not> P c \<Longrightarrow> replace_runs P rep (c # s) = c # replace_runs P rep s"
  by simp

lemma replace_runs_dropWhile_head:
  "replace_runs P rep (dropWhile P s) = [] \<or>
   (\<exists>c t. \<not> P c \<and> replace_runs P rep (dropWhile P s) = c # t)"
proof (cases "dropWhile P s")
  case Nil
  show ?thesis unfolding Nil by simp
next
  case (Cons c t)
  then have "\<not> P c" by (metis hd_dropWhile list.sel(1) list.distinct(1))
  with Cons show ?thesis by simp
qed

lemma replace_runs_chars:
  "c \<in> set (replace_runs not_alnum (js ''-'') s) \<Longrightarrow> slug_char c"
proof (induction not_alnum "js ''-''" s rule: replace_runs.induct)
  case 1
  then show ?case by simp
next
  case (2 d s)
  show ?case
  proof (cases "not_alnum d")
    case True
    with 2 show ?thesis by (auto simp: js_def slug_char_def is_hyphen_def)
  next
    case False
    with 2 show ?thesis by (auto simp: slug_char_def not_alnum_def is_alnum_def)
  qed
qed

lemma no_adjacent_Cons: "no_adjacent (a # s) = ((s = [] \<or> \<not> (is_hyphen a \<and> is_hyphen (hd s))) \<and> no_adjacent s)"
  by (cases s) auto

lemma replace_runs_no_adjacent: "no_adjacent (replace_runs not_alnum (js ''-'') s)"
proof (induction not_alnum "js ''-''" s rule: replace_runs.induct)
  case 1
  then show ?case by simp
next
  case (2 d s)
  show ?case
  proof (cases "not_alnum d")
    case True
    from replace_runs_dropWhile_head [of not_alnum "js ''-''" s]
    have "replace_runs not_alnum (js ''-'') (dropWhile not_alnum s) = [] \<or>
      \<not> is_hyphen (hd (replace_runs not_alnum (js ''-'') (dropWhile not_alnum s)))"
      using hyphen_not_alnum by auto
    with True 2 show ?thesis by (simp add: js_def no_adjacent_Cons)
  next
    case False
    then have "\<not> is_hyphen d" using hyphen_not_alnum by blast
    with False 2 show ?thesis by (simp add: no_adjacent_Cons)
  qed
qed

lemma no_adjacent_dropWhile: "no_adjacent s \<Longrightarrow> no_adjacent (dropWhile P s)"
  by (induction s) (auto simp: no_adjacent_Cons)

lemma no_adjacent_strip_trailing: "no_adjacent s \<Longrightarrow> no_adjacent (strip_trailing P s)"
proof (induction s)
  case Nil
  then show ?case by simp
next
  case (Cons c s)
  then have "no_adjacent (strip_trailing P s)" by (simp add: no_adjacent_Cons)
  moreover have "strip_trailing P s \<noteq> [] \<Longrightarrow> hd (strip_trailing P s) = hd s"
    by (cases s) (auto split: if_splits)
  moreover have "strip_trailing P s \<noteq> [] \<Longrightarrow> s \<noteq> []" by auto
  ultimately show ?case using Cons.prems by (auto simp: no_adjacent_Cons)
qed

lemma set_strip_both: "set (strip_both P s) \<subseteq> set s"
proof -
  have "set (strip_trailing P t) \<subseteq> set t" for t
    by (simp add: strip_trailing_rev) (metis set_dropWhileD set_rev subsetI)
  then show ?thesis
    unfolding strip_both_def using set_dropWhileD by fastforce
qed

lemma strip_both_head: "strip_both P s \<noteq> c # t \<or> \<not> P c"
proof (cases "dropWhile P s")
  case Nil
  show ?thesis unfolding strip_both_def Nil by simp
next
  case (Cons d u)
  then have "\<not> P d" by (metis hd_dropWhile list.sel(1) list.distinct(1))
  with Cons show ?thesis by (auto simp: strip_both_def split: if_splits)
qed

lemma strip_trailing_last: "strip_trailing P s \<noteq> t @ [c] \<or> \<not> P c"
proof (cases "P c")
  case False then show ?thesis by simp
next
  case True
  have "dropWhile P (rev s) \<noteq> c # rev t"
    using True by (metis hd_dropWhile list.sel(1) list.distinct(1))
  then have "rev (dropWhile P (rev s)) \<noteq> t @ [c]"
    by (metis rev.simps(2) rev_rev_ident)
  then show ?thesis by (simp add: strip_trailing_rev)
qed

lemma strip_both_last: "strip_both P s \<noteq> t @ [c] \<or> \<not> P c"
  unfolding strip_both_def by (rule strip_trailing_last)

lemma replace_runs_fixed:
  "\<forall>c\<in>set s. slug_char c \<Longrightarrow> no_adjacent s \<Longrightarrow> replace_runs not_alnum (js ''-'') s = s"
proof (induction s)
  case Nil
  then show ?case by simp
next
  case (Cons c s)
  then have IH: "replace_runs not_alnum (js ''-'') s = s" by (simp add: no_adjacent_Cons)
  show ?case
  proof (cases "not_alnum c")
    case False
    with IH show ?thesis by simp
  next
    case True
    with Cons.prems have hy: "is_hyphen c"
      by (auto simp: slug_char_def not_alnum_def is_alnum_def)
    have "dropWhile not_alnum s = s"
    proof (cases s)
      case Nil then show ?thesis by simp
    next
      case (Cons d u)
      with hy Cons.prems \<open>no_adjacent (c # s)\<close> have "\<not> is_hyphen d" by simp
      moreover from Cons Cons.prems \<open>\<forall>c\<in>set (c # s). slug_char c\<close> have "slug_char d" by simp
      ultimately have "\<not> not_alnum d" by (auto simp: slug_char_def not_alnum_def is_alnum_def)
      with Cons show ?thesis by simp
    qed
    with True IH hy show ?thesis by (simp add: js_def is_hyphen_def)
  qed
qed


lemma strip_both_fixed:
  assumes "s = [] \<or> (\<not> P (hd s) \<and> \<not> P (last s))"
  shows "strip_both P s = s"
proof (cases "s = []")
  case True
  then show ?thesis by (simp add: strip_both_def)
next
  case False
  with assms have h: "\<not> P (hd s)" and l: "\<not> P (last s)" by auto
  from False h have d: "dropWhile P s = s" by (cases s) auto
  from False l have "dropWhile P (rev s) = rev s" by (cases s rule: rev_cases) auto
  with d show ?thesis by (simp add: strip_both_def strip_trailing_rev)
qed

lemma slugify_fixed:
  assumes chars: "\<forall>c\<in>set s. slug_char c"
    and adj: "no_adjacent s"
    and ends: "s = [] \<or> (\<not> is_hyphen (hd s) \<and> \<not> is_hyphen (last s))"
  shows "slugify U s = s"
proof -
  from chars have ascii: "list_all is_ascii s"
    by (simp add: list_all_iff slug_char_ascii)
  from chars have "map ascii_lower s = s"
    by (simp add: map_idI ascii_lower_def slug_char_not_upper)
  with ascii have low: "toLowerCase U s = s" by (simp add: toLowerCase_def)
  from ascii have nfd: "normalizeNFD U s = s" by (simp add: normalizeNFD_def)
  from chars have flt: "filter (\<lambda>c. \<not> is_combining c) s = s"
    by (simp add: slug_char_not_combining)
  show ?thesis
    unfolding slugify_def low nfd flt
    by (simp only: replace_runs_fixed [OF chars adj] strip_both_fixed [OF ends])
qed

lemma slugify_chars: "c \<in> set (slugify U v) \<Longrightarrow> slug_char c"
  unfolding slugify_def using set_strip_both replace_runs_chars by blast

lemma slugify_no_adjacent: "no_adjacent (slugify U v)"
  unfolding slugify_def strip_both_def
  by (intro no_adjacent_strip_trailing no_adjacent_dropWhile replace_runs_no_adjacent)

lemma no_adjacent_nth:
  "no_adjacent s \<Longrightarrow> Suc i < length s \<Longrightarrow> \<not> (is_hyphen (s ! i) \<and> is_hyphen (s ! Suc i))"
proof (induction s arbitrary: i rule: no_adjacent.induct)
  case (1 a b s)
  then show ?case by (cases i) auto
qed auto

text \<open>
  Claim C2. For every input string the slug consists of lowercase ASCII letters, digits
  and hyphens only, has no two hyphens side by side, neither starts nor ends with a
  hyphen, and normalizing it again returns it unchanged.
\<close>

theorem slugify_normal_form:
  "(\<forall>c\<in>set (slugify U v). is_lower c \<or> is_digit c \<or> c = 0x2D) \<and>
   (\<forall>i. Suc i < length (slugify U v) \<longrightarrow>
        \<not> (slugify U v ! i = 0x2D \<and> slugify U v ! Suc i = 0x2D)) \<and>
   (\<forall>t. slugify U v \<noteq> 0x2D # t) \<and>
   (\<forall>t. slugify U v \<noteq> t @ [0x2D]) \<and>
   slugify U (slugify U v) = slugify U v"
proof (intro conjI)
  show "\<forall>c\<in>set (slugify U v). is_lower c \<or> is_digit c \<or> c = 0x2D"
    using slugify_chars [of _ U v] by (auto simp: slug_char_def is_hyphen_def)
  show "\<forall>i. Suc i < length (slugify U v) \<longrightarrow>
        \<not> (slugify U v ! i = 0x2D \<and> slugify U v ! Suc i = 0x2D)"
    using no_adjacent_nth [OF slugify_no_adjacent, of _ U v] by (simp add: is_hyphen_def)
  show first: "\<forall>t. slugify U v \<noteq> 0x2D # t"
    unfolding slugify_def using strip_both_head [of is_hyphen] by (auto simp: is_hyphen_def)
  show last: "\<forall>t. slugify U v \<noteq> t @ [0x2D]"
    unfolding slugify_def using strip_both_last [of is_hyphen] by (auto simp: is_hyphen_def)
  have "slugify U v = [] \<or> (\<not> is_hyphen (hd (slugify U v)) \<and> \<not> is_hyphen (last (slugify U v)))"
  proof (cases "slugify U v = []")
    case False
    from False first have "\<not> is_hyphen (hd (slugify U v))"
      by (cases "slugify U v") (auto simp: is_hyphen_def)
    moreover from False last have "\<not> is_hyphen (last (slugify U v))"
      by (cases "slugify U v" rule: rev_cases) (auto simp: is_hyphen_def)
    ultimately show ?thesis by simp
  qed simp
  then show "slugify U (slugify U v) = slugify U v"
    using slugify_fixed slugify_chars slugify_no_adjacent by blast
qed

theorem slugify_normal_form_witness:
  "slugify plain_host (js '' Access -- Time!'') = js ''access-time'' \<and>
   is_lower (slugify plain_host (js '' Access -- Time!'') ! 0) \<and>
   slugify plain_host (js '' Access -- Time!'') ! 6 = 0x2D \<and>
   slugify plain_host (js '' Access -- Time!'') ! 7 \<noteq> 0x2D \<and>
   slugify plain_host (js '' Access -- Time!'') \<noteq> 0x2D # js ''ccess-time'' \<and>
   slugify plain_host (js '' Access -- Time!'') \<noteq> js ''access-tim'' @ [0x2D] \<and>
   slugify plain_host (slugify plain_host (js '' Access -- Time!'')) =
     slugify plain_host (js '' Access -- Time!'')"
proof -
  have e: "slugify plain_host (js '' Access -- Time!'') = js ''access-time''"
    by (simp add: slugify_def js_def toLowerCase_def normalizeNFD_def is_ascii_def
        ascii_lower_def is_upper_def is_combining_def not_alnum_def is_alnum_def is_lower_def
        is_digit_def strip_both_def is_hyphen_def)
  have l: "is_lower (js ''access-time'' ! 0)" and h: "js ''access-time'' ! 6 = 0x2D"
    and n: "Suc 6 < length (js ''access-time'')" and s: "Suc 6 = 7"
    by (simp_all add: js_def is_lower_def)
  from slugify_normal_form [of plain_host "js '' Access -- Time!''"] l h n s
  show ?thesis unfolding e by metis
qed

section \<open>Properties of the filename parser\<close>

lemma underscore_not_digit: "\<not> is_digit 0x5F"
  by (simp add: is_digit_def)

lemma take_eq_appendD: "take (length ys) xs = ys \<Longrightarrow> xs = ys @ drop (length ys) xs"
  by (metis append_take_drop_id)

lemma size_token_0D:
  assumes "size_token (c # s) 0 ds"
  shows "c = 0x5F \<and> takeWhile is_digit s = ds \<and> ds \<noteq> [] \<and>
         (\<exists>t. dropWhile is_digit s = 0x5F # t)"
proof -
  from assms have ne: "ds \<noteq> []" and dig: "\<forall>x\<in>set ds. is_digit x"
    and tk: "take (length (0x5F # ds @ [0x5F])) (c # s) = 0x5F # ds @ [0x5F]"
    by (simp_all add: size_token_def list_all_iff)
  from take_eq_appendD [OF tk] obtain r where "c # s = (0x5F # ds @ [0x5F]) @ r" by blast
  then have c: "c = 0x5F" and s: "s = ds @ 0x5F # r" by simp_all
  from dig have "takeWhile is_digit s = ds" "dropWhile is_digit s = 0x5F # r"
    unfolding s by (simp_all add: takeWhile_append2 dropWhile_append2 underscore_not_digit)
  with c ne show ?thesis by simp
qed

lemma size_token_0I:
  assumes "takeWhile is_digit s \<noteq> []" and "dropWhile is_digit s = 0x5F # t"
  shows "size_token (0x5F # s) 0 (takeWhile is_digit s)"
proof -
  have "s = takeWhile is_digit s @ 0x5F # t"
    using assms(2) by (metis takeWhile_dropWhile_id)
  then have "take (length (takeWhile is_digit s) + 1) s = takeWhile is_digit s @ [0x5F]"
    by (metis append.assoc append_Cons append_Nil append_eq_conv_conj length_append_singleton Suc_eq_plus1)
  moreover have "list_all is_digit (takeWhile is_digit s)"
    by (simp add: list_all_iff) (meson set_takeWhileD)
  ultimately show ?thesis using assms(1) by (simp add: size_token_def)
qed

lemma size_token_Suc: "size_token (c # s) (Suc i) ds = size_token s i ds"
  by (simp add: size_token_def)

lemma size_token_Nil: "\<not> size_token [] i ds"
  by (simp add: size_token_def)

lemma match_size_None: "match_size s = None \<Longrightarrow> \<not> size_token s i ds"
proof (induction s arbitrary: i)
  case Nil
  show ?case by (rule size_token_Nil)
next
  case (Cons c s)
  from Cons.prems have rest: "match_size s = None" by (simp split: if_splits)
  show ?case
  proof (cases i)
    case 0
    show ?thesis
    proof
      assume "size_token (c # s) i ds"
      with 0 have "size_token (c # s) 0 ds" by simp
      from size_token_0D [OF this] Cons.prems show False by auto
    qed
  next
    case (Suc j)
    with Cons.IH [OF rest] show ?thesis by (simp add: size_token_Suc)
  qed
qed

lemma match_size_Some:
  "match_size s = Some ds \<Longrightarrow>
   \<exists>i. size_token s i ds \<and> (\<forall>j<i. \<forall>ds'. \<not> size_token s j ds')"
proof (induction s)
  case Nil
  then show ?case by simp
next
  case (Cons c s)
  let ?here = "c = 0x5F \<and> takeWhile is_digit s \<noteq> [] \<and>
         (case dropWhile is_digit s of [] \<Rightarrow> False | d # _ \<Rightarrow> d = 0x5F)"
  show ?case
  proof (cases ?here)
    case True
    with Cons.prems have ds: "ds = takeWhile is_digit s" by simp
    from True obtain t where "dropWhile is_digit s = 0x5F # t"
      by (auto split: list.splits)
    with True have "size_token (c # s) 0 ds"
      unfolding ds using size_token_0I by blast
    then show ?thesis by blast
  next
    case False
    with Cons.prems have "match_size s = Some ds" by auto
    from Cons.IH [OF this] obtain i where
      i: "size_token s i ds" "\<forall>j<i. \<forall>ds'. \<not> size_token s j ds'" by blast
    have no0: "\<not> size_token (c # s) 0 ds'" for ds'
    proof
      assume "size_token (c # s) 0 ds'"
      from size_token_0D [OF this] False show False by auto
    qed
    have "\<forall>j<Suc i. \<forall>ds'. \<not> size_token (c # s) j ds'"
    proof (intro allI impI)
      fix j ds' assume "j < Suc i"
      then show "\<not> size_token (c # s) j ds'"
        using no0 i(2) by (cases j) (auto simp: size_token_Suc)
    qed
    moreover from i(1) have "size_token (c # s) (Suc i) ds" by (simp add: size_token_Suc)
    ultimately show ?thesis by blast
  qed
qed

lemma size_token_unique: "size_token s i ds \<Longrightarrow> size_token s i ds' \<Longrightarrow> ds = ds'"
proof (induction s arbitrary: i)
  case Nil
  then show ?case by (simp add: size_token_Nil)
next
  case (Cons c s)
  show ?case
  proof (cases i)
    case 0
    with Cons.prems size_token_0D [of c s ds] size_token_0D [of c s ds'] show ?thesis by auto
  next
    case (Suc j)
    with Cons show ?thesis by (simp add: size_token_Suc)
  qed
qed

lemma match_size_first:
  assumes tok: "size_token s i ds" and first: "\<forall>j<i. \<forall>ds'. \<not> size_token s j ds'"
  shows "match_size s = Some ds"
proof (cases "match_size s")
  case None
  from match_size_None [OF this] tok show ?thesis by blast
next
  case (Some g)
  from match_size_Some [OF this] obtain k where
    k: "size_token s k g" "\<forall>j<k. \<forall>ds'. \<not> size_token s j ds'" by blast
  have "k = i"
  proof (rule ccontr)
    assume "k \<noteq> i"
    then consider "k < i" | "i < k" by linarith
    then show False using first k tok by cases blast+
  qed
  with k(1) tok have "g = ds" using size_token_unique by blast
  with Some show ?thesis by simp
qed

lemma ci_match_length: "ci_match p t \<Longrightarrow> length t = length p"
  unfolding ci_match_def by (metis length_map)

lemma strip_svg_stem: "strip_svg n = stem_of n"
proof (induction n)
  case Nil
  show ?case by (simp add: stem_of_def)
next
  case (Cons c s)
  have len4: "length (js ''.svg'') = 4" by (simp add: js_def)
  show ?case
  proof (cases "ci_match (js ''.svg'') (c # s)")
    case True
    from ci_match_length [OF True] len4 have "length (c # s) = 4" by simp
    with True show ?thesis by (simp add: stem_of_def)
  next
    case False
    show ?thesis
    proof (cases "4 \<le> length s")
      case True
      then have "length (c # s) - 4 = Suc (length s - 4)" by simp
      then have "drop (length (c # s) - 4) (c # s) = drop (length s - 4) s"
        and "take (length (c # s) - 4) (c # s) = c # take (length s - 4) s"
        by (simp_all only: drop_Suc_Cons take_Suc_Cons)
      with False Cons True show ?thesis by (simp add: stem_of_def)
    next
      case short: False
      then have s: "stem_of s = s" by (simp add: stem_of_def)
      have "stem_of (c # s) = c # s"
      proof (cases "length (c # s) = 4")
        case True
        with False show ?thesis by (simp add: stem_of_def)
      next
        case False
        with short have "\<not> 4 \<le> length (c # s)" by simp
        then show ?thesis unfolding stem_of_def by (simp only: if_False simp_thms)
      qed
      with False Cons s show ?thesis by simp
    qed
  qed
qed

lemma round_to_double_exact: "n \<le> 2 ^ 53 \<Longrightarrow> round_to_double n = Integral n"
proof (cases "n < 2 ^ 53")
  case True
  then show ?thesis by (simp add: round_to_double_def)
next
  case False
  assume "n \<le> 2 ^ 53"
  with False have n: "n = 9007199254740992" by simp
  show ?thesis unfolding n
    by (simp add: round_to_double_def bit_length.simps Let_def)
qed

lemma size_d_parse:
  "size_d (parseFileDetails U n) =
     (case match_size (stem_of n) of None \<Rightarrow> None | Some g \<Rightarrow> if g \<noteq> [] then Some (Number g) else None)"
  by (simp add: parseFileDetails_def Let_def strip_svg_stem)

text \<open>
  Claim C3, as amended. After the image-format suffix is stripped in any case, the
  \<open>size\<close> facet is \<open>Number\<close> of the first underscore-delimited run of digits of
  the stem, which is the integer value of the run whenever that value is at most
  \<open>2^53\<close>; a stem without such a run gives no size, and parsing returns in every case.
\<close>

theorem parse_size:
  "(size_token (stem_of n) i ds \<and> (\<forall>j<i. \<forall>ds'. \<not> size_token (stem_of n) j ds') \<longrightarrow>
      size_d (parseFileDetails U n) = Some (Number ds)) \<and>
   ((\<forall>i ds. \<not> size_token (stem_of n) i ds) \<longrightarrow> size_d (parseFileDetails U n) = None) \<and>
   (digits_value ds \<le> 2 ^ 53 \<longrightarrow> Number ds = Integral (digits_value ds))"
proof (intro conjI impI)
  assume a: "size_token (stem_of n) i ds \<and> (\<forall>j<i. \<forall>ds'. \<not> size_token (stem_of n) j ds')"
  then have "match_size (stem_of n) = Some ds" using match_size_first by blast
  moreover from a have "ds \<noteq> []" by (simp add: size_token_def)
  ultimately show "size_d (parseFileDetails U n) = Some (Number ds)"
    by (simp add: size_d_parse)
next
  assume a: "\<forall>i ds. \<not> size_token (stem_of n) i ds"
  have "match_size (stem_of n) = None"
  proof (cases "match_size (stem_of n)")
    case (Some g)
    from match_size_Some [OF this] a show ?thesis by blast
  qed simp
  then show "size_d (parseFileDetails U n) = None" by (simp add: size_d_parse)
next
  assume "digits_value ds \<le> 2 ^ 53"
  then show "Number ds = Integral (digits_value ds)"
    by (simp add: Number_def round_to_double_exact)
qed

lemma size_token_shape:
  assumes "size_token s j ds"
  shows "Suc j < length s \<and> s ! j = 0x5F \<and> is_digit (s ! Suc j)"
proof -
  from assms obtain d ds' where ds: "ds = d # ds'" and dig: "is_digit d"
    by (cases ds) (auto simp: size_token_def)
  from assms have "take (length (0x5F # ds @ [0x5F])) (drop j s) = 0x5F # ds @ [0x5F]"
    by (simp add: size_token_def)
  from take_eq_appendD [OF this] obtain r where r: "drop j s = 0x5F # d # ds' @ 0x5F # r"
    unfolding ds by auto
  then have "length (drop j s) \<ge> 2" by simp
  then have len: "Suc j < length s" by simp
  from r have "drop j s ! 0 = 0x5F" "drop j s ! 1 = d" by simp_all
  with len have "s ! j = 0x5F" "s ! Suc j = d" by (simp_all add: nth_drop)
  with len dig show ?thesis by simp
qed

text \<open>
  The claim as first stated fails on a run whose value is not a double: the run below
  is the first of its stem and has the value \<open>9007199254740993\<close>, the size is
  \<open>9007199254740992\<close>.
\<close>

theorem parse_size_counterexample:
  "size_token (stem_of (js ''a_9007199254740993_.svg'')) 1 (js ''9007199254740993'') \<and>
   (\<forall>ds'. \<not> size_token (stem_of (js ''a_9007199254740993_.svg'')) 0 ds') \<and>
   digits_value (js ''9007199254740993'') = 9007199254740993 \<and>
   size_d (parseFileDetails plain_host (js ''a_9007199254740993_.svg'')) =
     Some (Integral 9007199254740992)"
proof -
  have stem: "stem_of (js ''a_9007199254740993_.svg'') = js ''a_9007199254740993_''"
    by (simp add: stem_of_def js_def ci_match_def ascii_upper_def is_lower_def)
  have tok: "size_token (js ''a_9007199254740993_'') 1 (js ''9007199254740993'')"
    by (simp add: size_token_def js_def is_digit_def)
  have none: "\<not> size_token (js ''a_9007199254740993_'') 0 ds'" for ds'
    using size_token_shape [of "js ''a_9007199254740993_''" 0 ds'] by (auto simp: js_def)
  have val: "digits_value (js ''9007199254740993'') = 9007199254740993"
    by (simp add: digits_value_def js_def)
  have m: "match_size (js ''a_9007199254740993_'') = Some (js ''9007199254740993'')"
    by (simp add: js_def is_digit_def)
  have r: "round_to_double 9007199254740993 = Integral 9007199254740992"
    by (simp add: round_to_double_def bit_length.simps Let_def)
  have ne: "js ''9007199254740993'' \<noteq> []" by (simp add: js_def)
  have "size_d (parseFileDetails plain_host (js ''a_9007199254740993_.svg'')) =
     Some (Integral 9007199254740992)"
    unfolding size_d_parse stem m by (simp add: ne Number_def val r)
  with tok none val show ?thesis unfolding stem by blast
qed

theorem parse_size_witness:
  "size_token (stem_of (js ''access_time_20_filled.svg'')) 11 (js ''20'') \<and>
   \<not> (\<exists>j ds'. j < 11 \<and> size_token (stem_of (js ''access_time_20_filled.svg'')) j ds') \<and>
   digits_value (js ''20'') = 20 \<and>
   size_d (parseFileDetails plain_host (js ''access_time_20_filled.svg'')) = Some (Integral 20) \<and>
   \<not> (\<exists>i ds. size_token (stem_of (js ''logo.svg'')) i ds) \<and>
   size_d (parseFileDetails plain_host (js ''logo.svg'')) = None"
proof -
  let ?n = "js ''access_time_20_filled.svg''"
  let ?s = "js ''access_time_20_filled''"
  have stem: "stem_of ?n = ?s"
    by (simp add: stem_of_def js_def ci_match_def ascii_upper_def is_lower_def)
  have tok: "size_token ?s 11 (js ''20'')"
    by (simp add: size_token_def js_def is_digit_def)
  have scan: "list_all (\<lambda>j. \<not> (?s ! j = 0x5F \<and> is_digit (?s ! Suc j))) [0..<11]"
    by (simp add: js_def is_digit_def upt_rec)
  have first: "\<forall>j<11. \<forall>ds'. \<not> size_token ?s j ds'"
  proof (intro allI impI)
    fix j :: nat and ds' assume "j < 11"
    with scan have "\<not> (?s ! j = 0x5F \<and> is_digit (?s ! Suc j))"
      by (simp add: list_all_iff)
    then show "\<not> size_token ?s j ds'" using size_token_shape by blast
  qed
  have val: "digits_value (js ''20'') = 20" by (simp add: digits_value_def js_def)
  have stem2: "stem_of (js ''logo.svg'') = js ''logo''"
    by (simp add: stem_of_def js_def ci_match_def ascii_upper_def is_lower_def)
  have "match_size (js ''logo'') = None" by (simp add: js_def)
  then have no: "\<forall>i ds. \<not> size_token (js ''logo'') i ds" using match_size_None by blast
  from parse_size [of ?n 11 "js ''20''" plain_host] tok first val
  have a: "size_d (parseFileDetails plain_host ?n) = Some (Integral 20)"
    unfolding stem by simp
  from parse_size [of "js ''logo.svg''" 0 "[]" plain_host] no
  have b: "size_d (parseFileDetails plain_host (js ''logo.svg'')) = None"
    unfolding stem2 by blast
  from tok first val a b no show ?thesis unfolding stem stem2 by blast
qed

section \<open>Properties of the catalog builder\<close>

lemma squeeze_hyphen_head:
  "is_hyphen d \<Longrightarrow> squeeze_hyphens (d # t) = d # squeeze_hyphens (dropWhile is_hyphen t)"
proof (induction t arbitrary: d)
  case Nil
  show ?case by simp
next
  case (Cons e u)
  show ?case
  proof (cases "is_hyphen e")
    case True
    with Cons.prems have "d = e" by (simp add: is_hyphen_def)
    with True Cons.IH [OF True] show ?thesis by simp
  next
    case False
    then show ?thesis by simp
  qed
qed

lemma collapse_hyphens_squeeze: "collapse_hyphens s = squeeze_hyphens s"
proof (induction s rule: collapse_hyphens.induct)
  case 1
  show ?case by simp
next
  case (2 c s)
  show ?case
  proof (cases "is_hyphen c \<and> (case s of [] \<Rightarrow> False | d # _ \<Rightarrow> is_hyphen d)")
    case True
    then obtain d t where s: "s = d # t" and d: "is_hyphen d" and c: "is_hyphen c"
      by (cases s) auto
    from c d have cd: "c = d" by (simp add: is_hyphen_def)
    from True 2 have "collapse_hyphens (c # s) = c # squeeze_hyphens (dropWhile is_hyphen s)"
      by simp
    also have "\<dots> = d # squeeze_hyphens (dropWhile is_hyphen t)" using s d cd by simp
    also have "\<dots> = squeeze_hyphens (d # t)" using squeeze_hyphen_head [OF d] by simp
    also have "\<dots> = squeeze_hyphens (c # s)" using s c d by simp
    finally show ?thesis .
  next
    case False
    then have "collapse_hyphens (c # s) = c # collapse_hyphens s"
      by (simp only: collapse_hyphens.simps if_False)
    also have "\<dots> = c # squeeze_hyphens s" using 2(2) [OF False] by simp
    also have "\<dots> = squeeze_hyphens (c # s)"
      using False by (cases s) auto
    finally show ?thesis .
  qed
qed

lemma make_record_fields:
  assumes "make_record U B cat md f = Inr r"
  shows "id_r r = collapse_hyphens (slugify U cat @ js ''-'' @ strip_svg f)"
    and "category r = cat"
    and "categorySlug r = slugify U cat"
    and "name r = nullish (get_prop md (js ''name'')) (JString cat)"
    and "tags r = nullish (get_prop md (js ''metaphor'')) (JArray [])"
    and "size_r r = size_d (parseFileDetails U f)"
    and "style_r r = style_d (parseFileDetails U f)"
    and "file_r r = f"
    and "cdn_url B cat f = Inr (cdnUrl r)"
  using assms
  by (auto simp: make_record_def Let_def parseFileDetails_def split: sum.splits)

lemma svg_records_mem:
  "svg_records U B cat md fs = Inr rs \<Longrightarrow> r \<in> set rs \<Longrightarrow>
   \<exists>f\<in>set fs. endsWith (toLowerCase U f) (js ''.svg'') \<and> make_record U B cat md f = Inr r"
proof (induction fs arbitrary: rs)
  case Nil
  then show ?case by simp
next
  case (Cons f fs)
  show ?case
  proof (cases "endsWith (toLowerCase U f) (js ''.svg'')")
    case False
    with Cons show ?thesis by auto
  next
    case True
    with Cons.prems obtain r0 rs0 where
      r0: "make_record U B cat md f = Inr r0" and
      rs0: "svg_records U B cat md fs = Inr rs0" and rs: "rs = r0 # rs0"
      by (auto split: sum.splits)
    show ?thesis
    proof (cases "r = r0")
      case True
      with r0 \<open>endsWith (toLowerCase U f) (js ''.svg'')\<close> show ?thesis by auto
    next
      case False
      with Cons.prems rs have "r \<in> set rs0" by simp
      from Cons.IH [OF rs0 this] show ?thesis by auto
    qed
  qed
qed

lemma category_records_mem:
  assumes "category_records U B e = Inr rs" and "r \<in> set rs"
  shows "\<exists>children files f. snd e = Dir (Some children) \<and>
           map_of children (js ''SVG'') = Some (Dir (Some files)) \<and>
           f \<in> set (map fst files) \<and> endsWith (toLowerCase U f) (js ''.svg'') \<and>
           make_record U B (fst e) (nullish (readJsonFile children) (JObject [])) f = Inr r"
proof -
  from assms obtain children files where
    e: "snd e = Dir (Some children)" and
    svg: "map_of children (js ''SVG'') = Some (Dir (Some files))" and
    recs: "svg_records U B (fst e) (nullish (readJsonFile children) (JObject [])) (map fst files) = Inr rs"
    by (auto simp: category_records_def Let_def
        split: fsnode.splits option.splits)
  from svg_records_mem [OF recs assms(2)] e svg show ?thesis by blast
qed

lemma walk_mem:
  "walk U B es = Inr rs \<Longrightarrow> r \<in> set rs \<Longrightarrow>
   \<exists>e\<in>set es. \<exists>crs. category_records U B e = Inr crs \<and> r \<in> set crs"
proof (induction es arbitrary: rs)
  case Nil
  then show ?case by simp
next
  case (Cons e es)
  from Cons.prems(1) obtain a b where
    a: "category_records U B e = Inr a" and b: "walk U B es = Inr b" and rs: "rs = a @ b"
    by (auto split: sum.splits)
  from Cons.prems(2) rs consider "r \<in> set a" | "r \<in> set b" by auto
  then show ?case
  proof cases
    case 1
    with a show ?thesis by auto
  next
    case 2
    from Cons.IH [OF b 2] show ?thesis by auto
  qed
qed

lemma record_origin:
  assumes "generateManifest U env now root = Inr m" and "r \<in> set (icons m)"
  shows "\<exists>md. make_record U (ICON_CDN_BASE_URL env) (category r) md (file_r r) = Inr r \<and>
          endsWith (toLowerCase U (file_r r)) (js ''.svg'')"
proof -
  from assms obtain es where es: "walk U (ICON_CDN_BASE_URL env) es = Inr (icons m)"
    by (auto simp: generateManifest_def split: fsnode.splits option.splits sum.splits)
  from walk_mem [OF es assms(2)] obtain e crs where
    "category_records U (ICON_CDN_BASE_URL env) e = Inr crs" "r \<in> set crs" by blast
  from category_records_mem [OF this] obtain md f where
    f: "endsWith (toLowerCase U f) (js ''.svg'')" and
    mk: "make_record U (ICON_CDN_BASE_URL env) (fst e) md f = Inr r" by blast
  from make_record_fields(2,8) [OF mk] f mk show ?thesis by auto
qed

lemma example_strings:
  "slugify U (js ''Access Time'') = js ''access-time''"
  "strip_svg (js ''access_time_20_filled.svg'') = js ''access_time_20_filled''"
  "endsWith (toLowerCase U (js ''access_time_20_filled.svg'')) (js ''.svg'')"
  "size_d (parseFileDetails U (js ''access_time_20_filled.svg'')) = Some (Integral 20)"
  "style_d (parseFileDetails U (js ''access_time_20_filled.svg'')) = Some (js ''filled'')"
  by (simp_all add: slugify_def js_def toLowerCase_def normalizeNFD_def is_ascii_def
      ascii_lower_def ascii_upper_def is_upper_def is_combining_def not_alnum_def is_alnum_def
      is_lower_def is_digit_def strip_both_def is_hyphen_def endsWith_def ci_match_def
      parseFileDetails_def Let_def style_names_def Number_def digits_value_def
      round_to_double_def)

lemma example_encodings:
  "encodeURIComponent (js ''Access Time'') = Some (js ''Access%20Time'')"
  "encodeURIComponent (js ''access_time_20_filled.svg'') = Some (js ''access_time_20_filled.svg'')"
  by (simp_all add: js_def uri_unreserved_def is_lower_def is_upper_def is_digit_def
      is_low_surrogate_def is_high_surrogate_def escape_def utf8_def percent_def hex_digit_def)

lemma example_record:
  "\<exists>r. generateManifest U env now access_time_root =
          Inr \<lparr> generatedAt = now, count = 1, icons = [r] \<rparr> \<and>
        id_r r = js ''access-time-access_time_20_filled'' \<and>
        categorySlug r = js ''access-time'' \<and>
        size_r r = Some (Integral 20) \<and>
        style_r r = Some (js ''filled'') \<and>
        tags r = JArray [JString (js ''number''), JString (js ''24''), JString (js ''Circle'')]"
proof -
  let ?cat = "js ''Access Time''" and ?f = "js ''access_time_20_filled.svg''"
  let ?B = "ICON_CDN_BASE_URL env"
  have "\<exists>u. cdn_url ?B ?cat ?f = Inr u"
    by (cases ?B) (simp_all add: cdn_url_def example_encodings)
  then obtain u where u: "cdn_url ?B ?cat ?f = Inr u" by blast
  have "\<exists>r. make_record U ?B ?cat access_time_descriptor ?f = Inr r"
    by (simp add: make_record_def Let_def u)
  then obtain r where r: "make_record U ?B ?cat access_time_descriptor ?f = Inr r" by blast
  have keys: "js ''SVG'' \<noteq> js ''metadata.json''" by (simp add: js_def)
  have md: "nullish (readJsonFile [(js ''metadata.json'', File (Parsed access_time_descriptor)),
                   (js ''SVG'', Dir (Some [(?f, File Malformed)]))]) (JObject [])
            = access_time_descriptor"
    by (simp add: readJsonFile_def access_time_descriptor_def)
  have "generateManifest U env now access_time_root =
          Inr \<lparr> generatedAt = now, count = 1, icons = [r] \<rparr>"
    unfolding generateManifest_def access_time_root_def access_time_category_def
    by (simp add: category_records_def keys md example_strings r del: readJsonFile_def)
  moreover have "js ''metaphor'' \<noteq> js ''name''" "js ''metaphor'' \<noteq> js ''keyword''"
    by (simp_all add: js_def)
  then have "tags r = JArray [JString (js ''number''), JString (js ''24''), JString (js ''Circle'')]"
    using make_record_fields(5) [OF r] by (simp add: access_time_descriptor_def)
  moreover have "id_r r = js ''access-time-access_time_20_filled''"
    using make_record_fields(1) [OF r] unfolding example_strings
    by (simp add: js_def is_hyphen_def)
  ultimately show ?thesis
    using make_record_fields(3,6,7) [OF r] by (simp add: example_strings)
qed

lemma single_file_manifest:
  assumes "map_of children (js ''SVG'') = Some (Dir (Some [(f, n)]))"
    and "endsWith (toLowerCase U f) (js ''.svg'')"
    and "make_record U (ICON_CDN_BASE_URL env) cat (nullish (readJsonFile children) (JObject [])) f = Inr r"
  shows "generateManifest U env now (Dir (Some [(cat, Dir (Some children))])) =
           Inr \<lparr> generatedAt = now, count = 1, icons = [r] \<rparr>"
  by (simp add: generateManifest_def category_records_def assms)

text \<open>
  Claim C1. The \<open>id\<close> of every record of the manifest is the category slug, a hyphen and
  the filename stem, with every run of consecutive hyphens collapsed to one; and the root
  with the one category \<open>Access Time\<close>, its descriptor and the file
  \<open>access_time_20_filled.svg\<close> gives one record with the stated \<open>id\<close>,
  \<open>categorySlug\<close>, \<open>size\<close>, \<open>style\<close> and \<open>tags\<close>.
\<close>

theorem record_id:
  "(generateManifest U env now root = Inr m \<and> r \<in> set (icons m) \<longrightarrow>
      categorySlug r = slugify U (category r) \<and>
      id_r r = squeeze_hyphens (categorySlug r @ js ''-'' @ stem_of (file_r r))) \<and>
   (\<exists>r. generateManifest U env now access_time_root =
          Inr \<lparr> generatedAt = now, count = 1, icons = [r] \<rparr> \<and>
        id_r r = js ''access-time-access_time_20_filled'' \<and>
        categorySlug r = js ''access-time'' \<and>
        size_r r = Some (Integral 20) \<and>
        style_r r = Some (js ''filled'') \<and>
        tags r = JArray [JString (js ''number''), JString (js ''24''), JString (js ''Circle'')])"
proof (intro conjI impI)
  assume a: "generateManifest U env now root = Inr m \<and> r \<in> set (icons m)"
  then obtain md where
    mk: "make_record U (ICON_CDN_BASE_URL env) (category r) md (file_r r) = Inr r"
    using record_origin by blast
  from make_record_fields(3) [OF mk]
  show "categorySlug r = slugify U (category r)" .
  with make_record_fields(1) [OF mk]
  show "id_r r = squeeze_hyphens (categorySlug r @ js ''-'' @ stem_of (file_r r))"
    by (simp add: collapse_hyphens_squeeze strip_svg_stem)
next
  show "\<exists>r. generateManifest U env now access_time_root =
          Inr \<lparr> generatedAt = now, count = 1, icons = [r] \<rparr> \<and>
        id_r r = js ''access-time-access_time_20_filled'' \<and>
        categorySlug r = js ''access-time'' \<and>
        size_r r = Some (Integral 20) \<and>
        style_r r = Some (js ''filled'') \<and>
        tags r = JArray [JString (js ''number''), JString (js ''24''), JString (js ''Circle'')]"
    by (rule example_record)
qed

theorem record_id_witness:
  "\<exists>r. generateManifest plain_host None (js ''t'') access_time_root =
          Inr \<lparr> generatedAt = js ''t'', count = 1, icons = [r] \<rparr> \<and>
        categorySlug r = slugify plain_host (category r) \<and>
        id_r r = squeeze_hyphens (categorySlug r @ js ''-'' @ stem_of (file_r r)) \<and>
        id_r r = js ''access-time-access_time_20_filled''"
proof -
  from record_id [of plain_host None "js ''t''"] obtain r where
    r: "generateManifest plain_host None (js ''t'') access_time_root =
          Inr \<lparr> generatedAt = js ''t'', count = 1, icons = [r] \<rparr>"
       "id_r r = js ''access-time-access_time_20_filled''"
    by blast
  from r(1) have "generateManifest plain_host None (js ''t'') access_time_root =
          Inr \<lparr> generatedAt = js ''t'', count = 1, icons = [r] \<rparr> \<and>
        r \<in> set (icons \<lparr> generatedAt = js ''t'', count = 1, icons = [r] \<rparr>)"
    by simp
  with record_id [of plain_host None "js ''t''" access_time_root
      "\<lparr> generatedAt = js ''t'', count = 1, icons = [r] \<rparr>" r]
  have "categorySlug r = slugify plain_host (category r) \<and>
      id_r r = squeeze_hyphens (categorySlug r @ js ''-'' @ stem_of (file_r r))" by blast
  with r show ?thesis by blast
qed

lemma replace_runs_all:
  "\<forall>c\<in>set s. P c \<Longrightarrow> replace_runs P rep s = (if s = [] then [] else rep)"
proof (cases s)
  case Nil
  then show ?thesis by simp
next
  case (Cons c t)
  assume a: "\<forall>c\<in>set s. P c"
  with Cons have c: "P c" and d: "dropWhile P t = []" by simp_all
  have "replace_runs P rep (c # t) = rep @ replace_runs P rep (dropWhile P t)"
    using c by simp
  then show ?thesis unfolding Cons d by simp
qed

lemma slugify_empty:
  assumes "\<forall>c\<in>set (normalizeNFD U (toLowerCase U label)). \<not> is_alnum c"
  shows "slugify U label = []"
proof -
  let ?s = "filter (\<lambda>c. \<not> is_combining c) (normalizeNFD U (toLowerCase U label))"
  from assms have "\<forall>c\<in>set ?s. not_alnum c" by (simp add: not_alnum_def)
  from replace_runs_all [OF this]
  have "replace_runs not_alnum (js ''-'') ?s = [] \<or> replace_runs not_alnum (js ''-'') ?s = js ''-''"
    by (simp split: if_splits)
  then show ?thesis
    unfolding slugify_def by (auto simp: strip_both_def js_def is_hyphen_def)
qed

lemma squeeze_hyphens_ends:
  "s \<noteq> [] \<Longrightarrow> squeeze_hyphens s \<noteq> [] \<and> hd (squeeze_hyphens s) = hd s \<and>
     last (squeeze_hyphens s) = last s"
proof (induction s rule: squeeze_hyphens.induct)
  case (1 a b s)
  then show ?case by (auto simp: is_hyphen_def)
qed auto

lemma no_adjacent_squeeze: "no_adjacent (squeeze_hyphens s)"
proof (induction s rule: squeeze_hyphens.induct)
  case (1 a b s)
  show ?case
  proof (cases "is_hyphen a \<and> is_hyphen b")
    case True
    with 1 show ?thesis by simp
  next
    case False
    then have eq: "squeeze_hyphens (a # b # s) = a # squeeze_hyphens (b # s)" by auto
    from squeeze_hyphens_ends [of "b # s"]
    have "squeeze_hyphens (b # s) \<noteq> []" "hd (squeeze_hyphens (b # s)) = b" by simp_all
    with False 1(2) [OF False] show ?thesis
      unfolding eq by (simp add: no_adjacent_Cons del: squeeze_hyphens.simps)
  qed
qed simp_all

lemma filter_squeeze:
  "filter (\<lambda>c. \<not> is_hyphen c) (squeeze_hyphens s) = filter (\<lambda>c. \<not> is_hyphen c) s"
  by (induction s rule: squeeze_hyphens.induct) auto

text \<open>
  Claim C10. A category label that keeps no ASCII letter or digit after lowercasing and
  decomposition has the empty slug, and every \<open>id\<close> of that category is a hyphen and
  the stem with every run of hyphens merged into one, so it begins with a hyphen. The
  collapse merges and never trims: its result has no two hyphens side by side, keeps
  every other code unit, and keeps the first and the last code unit of the string.
\<close>

theorem empty_slug_id:
  "((\<forall>c\<in>set (normalizeNFD U (toLowerCase U label)). \<not> is_alnum c) \<longrightarrow> slugify U label = []) \<and>
   (generateManifest U env now root = Inr m \<and> r \<in> set (icons m) \<and>
      (\<forall>c\<in>set (normalizeNFD U (toLowerCase U (category r))). \<not> is_alnum c) \<longrightarrow>
      categorySlug r = [] \<and> id_r r = squeeze_hyphens (0x2D # stem_of (file_r r)) \<and>
      (\<exists>t. id_r r = 0x2D # t)) \<and>
   (s \<noteq> [] \<longrightarrow> collapse_hyphens s \<noteq> [] \<and> hd (collapse_hyphens s) = hd s \<and>
      last (collapse_hyphens s) = last s) \<and>
   collapse_hyphens s = squeeze_hyphens s \<and>
   no_adjacent (collapse_hyphens s) \<and>
   filter (\<lambda>c. \<not> is_hyphen c) (collapse_hyphens s) = filter (\<lambda>c. \<not> is_hyphen c) s"
proof -
  have one: "(\<forall>c\<in>set (normalizeNFD U (toLowerCase U label)). \<not> is_alnum c) \<longrightarrow>
      slugify U label = []"
    using slugify_empty by blast
  have two: "generateManifest U env now root = Inr m \<and> r \<in> set (icons m) \<and>
      (\<forall>c\<in>set (normalizeNFD U (toLowerCase U (category r))). \<not> is_alnum c) \<longrightarrow>
      categorySlug r = [] \<and> id_r r = squeeze_hyphens (0x2D # stem_of (file_r r)) \<and>
      (\<exists>t. id_r r = 0x2D # t)"
  proof
    assume a: "generateManifest U env now root = Inr m \<and> r \<in> set (icons m) \<and>
      (\<forall>c\<in>set (normalizeNFD U (toLowerCase U (category r))). \<not> is_alnum c)"
    then obtain md where
      mk: "make_record U (ICON_CDN_BASE_URL env) (category r) md (file_r r) = Inr r"
      using record_origin by blast
    from a have e: "slugify U (category r) = []" using slugify_empty by blast
    with make_record_fields(3) [OF mk] have slug: "categorySlug r = []" by simp
    let ?s = "0x2D # stem_of (file_r r)"
    from make_record_fields(1) [OF mk] e have ident: "id_r r = squeeze_hyphens ?s"
      by (simp add: collapse_hyphens_squeeze strip_svg_stem js_def)
    from squeeze_hyphens_ends [of ?s]
    have "squeeze_hyphens ?s \<noteq> []" "hd (squeeze_hyphens ?s) = 0x2D" by simp_all
    with ident have "\<exists>t. id_r r = 0x2D # t" by (metis list.collapse)
    with slug ident
    show "categorySlug r = [] \<and> id_r r = squeeze_hyphens (0x2D # stem_of (file_r r)) \<and>
      (\<exists>t. id_r r = 0x2D # t)" by blast
  qed
  have three: "s \<noteq> [] \<longrightarrow> collapse_hyphens s \<noteq> [] \<and> hd (collapse_hyphens s) = hd s \<and>
      last (collapse_hyphens s) = last s"
    using squeeze_hyphens_ends [of s] by (simp add: collapse_hyphens_squeeze)
  have four: "collapse_hyphens s = squeeze_hyphens s" by (rule collapse_hyphens_squeeze)
  have five: "no_adjacent (collapse_hyphens s)"
    unfolding four by (rule no_adjacent_squeeze)
  have six: "filter (\<lambda>c. \<not> is_hyphen c) (collapse_hyphens s) = filter (\<lambda>c. \<not> is_hyphen c) s"
    unfolding four by (rule filter_squeeze)
  from one two three four five six show ?thesis by blast
qed

theorem empty_slug_id_witness:
  "\<exists>r. generateManifest plain_host None (js ''t'') punctuation_root =
          Inr \<lparr> generatedAt = js ''t'', count = 1, icons = [r] \<rparr> \<and>
        category r = js ''!?'' \<and> slugify plain_host (js ''!?'') = [] \<and>
        categorySlug r = [] \<and> file_r r = js ''--x--.svg'' \<and> id_r r = js ''-x-'' \<and>
        collapse_hyphens (js ''--x--'') = js ''-x-'' \<and>
        hd (collapse_hyphens (js ''--x--'')) = 0x2D \<and> last (collapse_hyphens (js ''--x--'')) = 0x2D"
proof -
  let ?cat = "js ''!?''" and ?f = "js ''--x--.svg''"
  have mk: "\<exists>r. make_record plain_host (ICON_CDN_BASE_URL None) ?cat (JObject []) ?f = Inr r"
    by (simp add: make_record_def Let_def cdn_url_def ICON_CDN_BASE_URL_def)
  then obtain r where r: "make_record plain_host (ICON_CDN_BASE_URL None) ?cat (JObject []) ?f = Inr r"
    by blast
  have ends: "endsWith (toLowerCase plain_host ?f) (js ''.svg'')"
    by (simp add: js_def toLowerCase_def is_ascii_def ascii_lower_def is_upper_def endsWith_def)
  have keys: "js ''SVG'' \<noteq> js ''metadata.json''" by (simp add: js_def)
  have md: "nullish (readJsonFile [(js ''SVG'', Dir (Some [(?f, File Malformed)]))]) (JObject [])
      = JObject []"
    by (simp add: readJsonFile_def keys)
  have m: "generateManifest plain_host None (js ''t'') punctuation_root =
          Inr \<lparr> generatedAt = js ''t'', count = 1, icons = [r] \<rparr>"
    unfolding punctuation_root_def
    by (rule single_file_manifest [where f = ?f and n = "File Malformed"])
       (simp_all add: ends md r)
  have low: "\<forall>c\<in>set (normalizeNFD plain_host (toLowerCase plain_host ?cat)). \<not> is_alnum c"
    by (simp add: js_def toLowerCase_def normalizeNFD_def is_ascii_def ascii_lower_def
        is_upper_def is_alnum_def is_lower_def is_digit_def)
  have cat: "category r = ?cat" and f: "file_r r = ?f"
    using make_record_fields(2,8) [OF r] by simp_all
  have ne: "js ''--x--'' \<noteq> []" by (simp add: js_def)
  have hl: "hd (js ''--x--'') = 0x2D" "last (js ''--x--'') = 0x2D" by (simp_all add: js_def)
  have stem: "stem_of ?f = js ''--x--''"
    by (simp add: stem_of_def js_def ci_match_def ascii_upper_def is_lower_def)
  have sq1: "squeeze_hyphens (0x2D # js ''--x--'') = js ''-x-''"
    and sq2: "squeeze_hyphens (js ''--x--'') = js ''-x-''"
    by (simp_all add: js_def is_hyphen_def)
  have mem: "generateManifest plain_host None (js ''t'') punctuation_root =
        Inr \<lparr> generatedAt = js ''t'', count = 1, icons = [r] \<rparr> \<and>
      r \<in> set (icons \<lparr> generatedAt = js ''t'', count = 1, icons = [r] \<rparr>) \<and>
      (\<forall>c\<in>set (normalizeNFD plain_host (toLowerCase plain_host (category r))). \<not> is_alnum c)"
    using m low cat by simp
  note T = empty_slug_id [of plain_host ?cat None "js ''t''" punctuation_root
      "\<lparr> generatedAt = js ''t'', count = 1, icons = [r] \<rparr>" r "js ''--x--''"]
  from T low have slug: "slugify plain_host ?cat = []" by blast
  from T mem have cs: "categorySlug r = []"
    and ident: "id_r r = squeeze_hyphens (0x2D # stem_of (file_r r))" by blast+
  from T have col: "collapse_hyphens (js ''--x--'') = squeeze_hyphens (js ''--x--'')" by blast
  from T ne have "hd (collapse_hyphens (js ''--x--'')) = hd (js ''--x--'')"
    and "last (collapse_hyphens (js ''--x--'')) = last (js ''--x--'')" by blast+
  then have h: "hd (collapse_hyphens (js ''--x--'')) = 0x2D"
           "last (collapse_hyphens (js ''--x--'')) = 0x2D"
    unfolding hl by blast+
  from ident have "id_r r = js ''-x-''" unfolding f stem sq1 .
  moreover from col have "collapse_hyphens (js ''--x--'') = js ''-x-''" unfolding sq2 .
  ultimately show ?thesis using m cat slug cs f h by blast
qed

section \<open>The remote location of a record\<close>

lemma cdn_url_cases:
  assumes "cdn_url (ICON_CDN_BASE_URL env) cat f = Inr u"
  shows "case env of
        None \<Rightarrow> u = None
      | Some b \<Rightarrow>
          (if rev (dropWhile is_slash (rev b)) = [] then u = None
           else \<exists>c g. encodeURIComponent cat = Some c \<and> encodeURIComponent f = Some g \<and>
                  u = Some (rev (dropWhile is_slash (rev b)) @ js ''/'' @ c @ js ''/SVG/'' @ g))"
proof (cases env)
  case None
  with assms show ?thesis by (simp add: ICON_CDN_BASE_URL_def cdn_url_def)
next
  case (Some b)
  show ?thesis
  proof (cases "b = []")
    case True
    with Some assms show ?thesis by (simp add: ICON_CDN_BASE_URL_def cdn_url_def)
  next
    case False
    define s where "s = rev (dropWhile is_slash (rev b))"
    with False Some have "ICON_CDN_BASE_URL env = Some s"
      by (simp add: ICON_CDN_BASE_URL_def strip_trailing_rev)
    with assms have "cdn_url (Some s) cat f = Inr u" by simp
    then have "if s = [] then u = None
           else \<exists>c g. encodeURIComponent cat = Some c \<and> encodeURIComponent f = Some g \<and>
                  u = Some (s @ js ''/'' @ c @ js ''/SVG/'' @ g)"
      by (auto simp: cdn_url_def split: option.splits if_splits)
    then show ?thesis unfolding Some s_def by simp
  qed
qed

text \<open>
  Claim C4, as amended. When the base location setting is present and something is left
  of it once its trailing slashes are stripped, \<open>cdnUrl\<close> is what is left, a slash, the
  percent-encoded category name, \<open>/SVG/\<close> and the percent-encoded filename; when the
  setting is absent, or nothing is left of it, \<open>cdnUrl\<close> is null.
\<close>

theorem cdn_url_of_record:
  "generateManifest U env now root = Inr m \<and> r \<in> set (icons m) \<longrightarrow>
     (case env of
        None \<Rightarrow> cdnUrl r = None
      | Some b \<Rightarrow>
          (if rev (dropWhile is_slash (rev b)) = [] then cdnUrl r = None
           else \<exists>c f. encodeURIComponent (category r) = Some c \<and>
                  encodeURIComponent (file_r r) = Some f \<and>
                  cdnUrl r =
                    Some (rev (dropWhile is_slash (rev b)) @ js ''/'' @ c @ js ''/SVG/'' @ f)))"
proof
  assume "generateManifest U env now root = Inr m \<and> r \<in> set (icons m)"
  then obtain md where
    mk: "make_record U (ICON_CDN_BASE_URL env) (category r) md (file_r r) = Inr r"
    using record_origin by blast
  from cdn_url_cases [OF make_record_fields(9) [OF mk]]
  show "case env of
        None \<Rightarrow> cdnUrl r = None
      | Some b \<Rightarrow>
          (if rev (dropWhile is_slash (rev b)) = [] then cdnUrl r = None
           else \<exists>c f. encodeURIComponent (category r) = Some c \<and>
                  encodeURIComponent (file_r r) = Some f \<and>
                  cdnUrl r =
                    Some (rev (dropWhile is_slash (rev b)) @ js ''/'' @ c @ js ''/SVG/'' @ f))" .
qed

lemma access_time_manifest:
  assumes "make_record U (ICON_CDN_BASE_URL env) (js ''Access Time'') access_time_descriptor
             (js ''access_time_20_filled.svg'') = Inr r"
  shows "generateManifest U env now access_time_root =
           Inr \<lparr> generatedAt = now, count = 1, icons = [r] \<rparr>"
proof -
  have keys: "js ''SVG'' \<noteq> js ''metadata.json''" by (simp add: js_def)
  have nd: "nullish (Some access_time_descriptor) (JObject []) = access_time_descriptor"
    by (simp add: access_time_descriptor_def)
  show ?thesis
    unfolding access_time_root_def access_time_category_def
    by (rule single_file_manifest [where f = "js ''access_time_20_filled.svg''" and n = "File Malformed"])
       (simp_all add: keys readJsonFile_def example_strings assms nd)
qed

text \<open>
  The claim as first stated fails for a setting that is present and consists of slashes:
  with the base \<open>/\<close> the record of the example has no \<open>cdnUrl\<close>, where the claim
  gives \<open>/Access%20Time/SVG/access_time_20_filled.svg\<close>.
\<close>

theorem cdn_url_counterexample:
  "(case generateManifest plain_host (Some (js ''/'')) (js ''t'') access_time_root of
      Inl e \<Rightarrow> []
    | Inr m \<Rightarrow> map cdnUrl (icons m)) = [None] \<and>
   strip_trailing is_slash (js ''/'') = [] \<and>
   encodeURIComponent (js ''Access Time'') = Some (js ''Access%20Time'')"
proof -
  have B: "ICON_CDN_BASE_URL (Some (js ''/'')) = Some []"
    by (simp add: ICON_CDN_BASE_URL_def js_def is_slash_def)
  have "\<exists>r. make_record plain_host (Some []) (js ''Access Time'') access_time_descriptor
             (js ''access_time_20_filled.svg'') = Inr r \<and> cdnUrl r = None"
    by (simp add: make_record_def Let_def cdn_url_def)
  then obtain r where
    r: "make_record plain_host (ICON_CDN_BASE_URL (Some (js ''/''))) (js ''Access Time'')
          access_time_descriptor (js ''access_time_20_filled.svg'') = Inr r"
    and u: "cdnUrl r = None"
    unfolding B by blast
  from access_time_manifest [OF r] u
  have "(case generateManifest plain_host (Some (js ''/'')) (js ''t'') access_time_root of
      Inl e \<Rightarrow> []
    | Inr m \<Rightarrow> map cdnUrl (icons m)) = [None]" by simp
  moreover have "strip_trailing is_slash (js ''/'') = []" by (simp add: js_def is_slash_def)
  ultimately show ?thesis using example_encodings(1) by blast
qed

theorem cdn_url_of_record_witness:
  "\<exists>r. generateManifest plain_host (Some (js ''https://cdn.example.com/icons//'')) (js ''t'')
          access_time_root = Inr \<lparr> generatedAt = js ''t'', count = 1, icons = [r] \<rparr> \<and>
        cdnUrl r =
          Some (js ''https://cdn.example.com/icons/Access%20Time/SVG/access_time_20_filled.svg'')"
proof -
  let ?env = "Some (js ''https://cdn.example.com/icons//'')"
  let ?cat = "js ''Access Time''" and ?f = "js ''access_time_20_filled.svg''"
  have "\<exists>u. cdn_url (ICON_CDN_BASE_URL ?env) ?cat ?f = Inr u"
    by (cases "ICON_CDN_BASE_URL ?env") (simp_all add: cdn_url_def example_encodings)
  then obtain u where u: "cdn_url (ICON_CDN_BASE_URL ?env) ?cat ?f = Inr u" by blast
  have "\<exists>r. make_record plain_host (ICON_CDN_BASE_URL ?env) ?cat access_time_descriptor ?f = Inr r"
    by (simp add: make_record_def Let_def u)
  then obtain r where
    r: "make_record plain_host (ICON_CDN_BASE_URL ?env) ?cat access_time_descriptor ?f = Inr r"
    by blast
  have m: "generateManifest plain_host ?env (js ''t'') access_time_root =
      Inr \<lparr> generatedAt = js ''t'', count = 1, icons = [r] \<rparr>"
    by (rule access_time_manifest [OF r])
  have cf: "category r = ?cat" "file_r r = ?f" using make_record_fields(2,8) [OF r] by simp_all
  have b: "rev (dropWhile is_slash (rev (js ''https://cdn.example.com/icons//''))) =
      js ''https://cdn.example.com/icons''"
    by (simp add: js_def is_slash_def)
  have ne: "js ''https://cdn.example.com/icons'' \<noteq> []" by (simp add: js_def)
  from cdn_url_of_record [of plain_host ?env "js ''t''" access_time_root
      "\<lparr> generatedAt = js ''t'', count = 1, icons = [r] \<rparr>" r] m
  have "cdnUrl r = Some (js ''https://cdn.example.com/icons'' @ js ''/'' @ js ''Access%20Time'' @
      js ''/SVG/'' @ js ''access_time_20_filled.svg'')"
    unfolding cf by (simp add: b ne example_encodings)
  then have "cdnUrl r =
      Some (js ''https://cdn.example.com/icons/Access%20Time/SVG/access_time_20_filled.svg'')"
    by (simp add: js_def)
  with m show ?thesis by blast
qed

section \<open>Categories without descriptor or image subfolder\<close>

lemma svg_records_files:
  "svg_records U B cat md fs = Inr rs \<Longrightarrow>
   map file_r rs = filter (\<lambda>f. endsWith (toLowerCase U f) (js ''.svg'')) fs"
proof (induction fs arbitrary: rs)
  case Nil
  then show ?case by simp
next
  case (Cons f fs)
  show ?case
  proof (cases "endsWith (toLowerCase U f) (js ''.svg'')")
    case False
    with Cons show ?thesis by simp
  next
    case True
    with Cons.prems obtain r0 rs0 where
      r0: "make_record U B cat md f = Inr r0" and
      rs0: "svg_records U B cat md fs = Inr rs0" and rs: "rs = r0 # rs0"
      by (auto split: sum.splits)
    from Cons.IH [OF rs0] make_record_fields(8) [OF r0] True rs show ?thesis by simp
  qed
qed

lemma make_record_defined:
  "cdn_url B cat f = Inr u \<Longrightarrow> \<exists>r. make_record U B cat md f = Inr r"
  by (simp add: make_record_def Let_def)

lemma svg_records_defined:
  "\<forall>f\<in>set fs. \<exists>u. cdn_url B cat f = Inr u \<Longrightarrow> \<exists>rs. svg_records U B cat md fs = Inr rs"
proof (induction fs)
  case Nil
  show ?case by simp
next
  case (Cons f fs)
  then obtain rs where rs: "svg_records U B cat md fs = Inr rs" by auto
  from Cons.prems obtain u where "cdn_url B cat f = Inr u" by auto
  from make_record_defined [OF this] obtain r where "make_record U B cat md f = Inr r" by blast
  with rs show ?case by simp
qed

lemma cdn_url_defined:
  "B = None \<or> (encodable cat \<and> encodable f) \<Longrightarrow> \<exists>u. cdn_url B cat f = Inr u"
  by (auto simp: cdn_url_def encodable_def split: option.splits)

lemma readJsonFile_None:
  "\<forall>v. map_of children (js ''metadata.json'') \<noteq> Some (File (Parsed v)) \<Longrightarrow>
   readJsonFile children = None"
  by (auto simp: readJsonFile_def split: option.splits fsnode.splits file_content.splits)

lemma category_records_listed:
  "map_of children (js ''SVG'') = Some (Dir (Some files)) \<Longrightarrow>
   category_records U B (cname, Dir (Some children)) =
     svg_records U B cname (nullish (readJsonFile children) (JObject [])) (map fst files)"
  by (simp add: category_records_def)

text \<open>
  Claim C5. For a category whose descriptor file is missing, unreadable or malformed,
  the loader gives \<open>null\<close> and the builder goes on with the empty record; the category's
  run returns whenever the names can be percent-encoded or no base location is set, and
  its records are those of the image files of the subfolder, in order, each with the raw
  directory name as \<open>name\<close> and the empty sequence as \<open>tags\<close>.
\<close>

theorem missing_descriptor:
  "(\<forall>v. map_of children (js ''metadata.json'') \<noteq> Some (File (Parsed v))) \<longrightarrow>
      readJsonFile children = None \<and>
      nullish (readJsonFile children) (JObject []) = JObject [] \<and>
      (map_of children (js ''SVG'') = Some (Dir (Some files)) \<longrightarrow>
         (\<forall>rs. category_records U base (cname, Dir (Some children)) = Inr rs \<longrightarrow>
              map file_r rs =
                filter (\<lambda>f. endsWith (toLowerCase U f) (js ''.svg'')) (map fst files) \<and>
              (\<forall>r\<in>set rs. name r = JString cname \<and> tags r = JArray [])) \<and>
         (base = None \<or> (encodable cname \<and> (\<forall>f\<in>set (map fst files). encodable f)) \<longrightarrow>
              (\<exists>rs. category_records U base (cname, Dir (Some children)) = Inr rs)))"
proof (intro impI conjI allI)
  assume a: "\<forall>v. map_of children (js ''metadata.json'') \<noteq> Some (File (Parsed v))"
  from readJsonFile_None [OF a] show none: "readJsonFile children = None" .
  then show md: "nullish (readJsonFile children) (JObject []) = JObject []" by simp
  {
    fix rs
    assume svg: "map_of children (js ''SVG'') = Some (Dir (Some files))"
      and rs: "category_records U base (cname, Dir (Some children)) = Inr rs"
    from rs have recs: "svg_records U base cname (JObject []) (map fst files) = Inr rs"
      unfolding category_records_listed [OF svg] md .
    from svg_records_files [OF recs]
    show "map file_r rs =
        filter (\<lambda>f. endsWith (toLowerCase U f) (js ''.svg'')) (map fst files)" .
    show "\<forall>r\<in>set rs. name r = JString cname \<and> tags r = JArray []"
    proof
      fix r assume "r \<in> set rs"
      from svg_records_mem [OF recs this] obtain f where
        "make_record U base cname (JObject []) f = Inr r" by blast
      from make_record_fields(4,5) [OF this]
      show "name r = JString cname \<and> tags r = JArray []" by simp
    qed
  }
  {
    assume svg: "map_of children (js ''SVG'') = Some (Dir (Some files))"
      and ok: "base = None \<or> (encodable cname \<and> (\<forall>f\<in>set (map fst files). encodable f))"
    then have "\<forall>f\<in>set (map fst files). \<exists>u. cdn_url base cname f = Inr u"
      using cdn_url_defined by blast
    from svg_records_defined [OF this]
    show "\<exists>rs. category_records U base (cname, Dir (Some children)) = Inr rs"
      unfolding category_records_listed [OF svg] .
  }
qed

theorem missing_descriptor_witness:
  "\<exists>r. category_records plain_host None (js ''Misc'', Dir (Some undescribed_children)) = Inr [r] \<and>
        map_of undescribed_children (js ''metadata.json'') = None \<and>
        readJsonFile undescribed_children = None \<and>
        file_r r = js ''a.svg'' \<and> name r = JString (js ''Misc'') \<and> tags r = JArray []"
proof -
  let ?files = "[(js ''a.svg'', File Malformed), (js ''notes.txt'', File Unreadable)]"
  have keys: "js ''SVG'' \<noteq> js ''metadata.json''" by (simp add: js_def)
  then have no: "map_of undescribed_children (js ''metadata.json'') = None"
    by (simp add: undescribed_children_def)
  then have a: "\<forall>v. map_of undescribed_children (js ''metadata.json'') \<noteq> Some (File (Parsed v))"
    by simp
  have svg: "map_of undescribed_children (js ''SVG'') = Some (Dir (Some ?files))"
    by (simp add: undescribed_children_def)
  have flt: "filter (\<lambda>f. endsWith (toLowerCase plain_host f) (js ''.svg'')) (map fst ?files) =
      [js ''a.svg'']"
    by (simp add: js_def toLowerCase_def is_ascii_def ascii_lower_def is_upper_def endsWith_def)
  from missing_descriptor [of undescribed_children ?files plain_host None "js ''Misc''"] a svg
  have none: "readJsonFile undescribed_children = None"
    and ex: "\<exists>rs. category_records plain_host None (js ''Misc'', Dir (Some undescribed_children)) = Inr rs"
    and all: "\<forall>rs. category_records plain_host None (js ''Misc'', Dir (Some undescribed_children)) = Inr rs \<longrightarrow>
              map file_r rs = [js ''a.svg''] \<and>
              (\<forall>r\<in>set rs. name r = JString (js ''Misc'') \<and> tags r = JArray [])"
    unfolding flt by blast+
  from ex obtain rs where
    rs: "category_records plain_host None (js ''Misc'', Dir (Some undescribed_children)) = Inr rs"
    by blast
  with all have f: "map file_r rs = [js ''a.svg'']"
    and nt: "\<forall>r\<in>set rs. name r = JString (js ''Misc'') \<and> tags r = JArray []" by blast+
  from f obtain r where r: "rs = [r]" "file_r r = js ''a.svg''" by auto
  with nt have "name r = JString (js ''Misc'')" "tags r = JArray []" by simp_all
  with rs r no none show ?thesis by blast
qed

lemma walk_append:
  "walk U B (xs @ ys) =
     (case walk U B xs of
        Inl e \<Rightarrow> Inl e
      | Inr a \<Rightarrow> (case walk U B ys of Inl e \<Rightarrow> Inl e | Inr b \<Rightarrow> Inr (a @ b)))"
  by (induction xs) (auto split: sum.splits)

lemma walk_skip:
  "category_records U B e = Inr [] \<Longrightarrow> walk U B (pre @ e # post) = walk U B (pre @ post)"
  by (simp add: walk_append split: sum.splits)

lemma walk_complete:
  "list_all2 (\<lambda>e rs. category_records U B e = Inr rs) es rss \<Longrightarrow>
   walk U B es = Inr (concat rss)"
  by (induction es rss rule: list_all2_induct) simp_all

lemma walk_sound:
  "walk U B es = Inr recs \<Longrightarrow>
   \<exists>rss. list_all2 (\<lambda>e rs. category_records U B e = Inr rs) es rss \<and> recs = concat rss"
proof (induction es arbitrary: recs)
  case Nil
  then show ?case by simp
next
  case (Cons e es)
  from Cons.prems obtain a b where
    a: "category_records U B e = Inr a" and b: "walk U B es = Inr b" and r: "recs = a @ b"
    by (auto split: sum.splits)
  from Cons.IH [OF b] obtain rss where
    "list_all2 (\<lambda>e rs. category_records U B e = Inr rs) es rss" "b = concat rss" by blast
  with a r have "list_all2 (\<lambda>e rs. category_records U B e = Inr rs) (e # es) (a # rss) \<and>
      recs = concat (a # rss)" by simp
  then show ?case by blast
qed

lemma single_entry_records:
  "generateManifest U env now (Dir (Some [e])) = Inr m \<Longrightarrow>
   category_records U (ICON_CDN_BASE_URL env) e = Inr (icons m)"
  by (auto simp: generateManifest_def split: sum.splits)

text \<open>
  Claim C6. A category directory in which the image subfolder is missing, or is not a
  directory, contributes no record and does not stop the build, and every other category
  is still processed: the walk over the root, and the whole run, give what they give on
  the root without that category, which is the records of the other categories, each
  category's records in turn.
\<close>

theorem missing_subfolder:
  "map_of children (js ''SVG'') = None \<or> (\<exists>c. map_of children (js ''SVG'') = Some (File c)) \<longrightarrow>
     category_records U base (cname, Dir (Some children)) = Inr [] \<and>
     walk U base (pre @ (cname, Dir (Some children)) # post) = walk U base (pre @ post) \<and>
     generateManifest U env now (Dir (Some (pre @ (cname, Dir (Some children)) # post))) =
       generateManifest U env now (Dir (Some (pre @ post))) \<and>
     (list_all2 (\<lambda>e rs. category_records U base e = Inr rs) (pre @ post) rss \<longrightarrow>
        walk U base (pre @ (cname, Dir (Some children)) # post) = Inr (concat rss)) \<and>
     (list_all2 (\<lambda>e rs. category_records U (ICON_CDN_BASE_URL env) e = Inr rs) (pre @ post) rss \<longrightarrow>
        generateManifest U env now (Dir (Some (pre @ (cname, Dir (Some children)) # post))) =
          Inr \<lparr> generatedAt = now, count = length (concat rss), icons = concat rss \<rparr>) \<and>
     (walk U base (pre @ (cname, Dir (Some children)) # post) = Inr recs \<longrightarrow>
        (\<exists>rss'. list_all2 (\<lambda>e rs. category_records U base e = Inr rs) (pre @ post) rss' \<and>
                recs = concat rss'))"
proof
  assume a: "map_of children (js ''SVG'') = None \<or>
    (\<exists>c. map_of children (js ''SVG'') = Some (File c))"
  let ?e = "(cname, Dir (Some children))"
  from a have none: "category_records U B' ?e = Inr []" for B'
    by (auto simp: category_records_def)
  from walk_skip [OF none]
  have skip: "walk U B' (pre @ ?e # post) = walk U B' (pre @ post)" for B'
    by blast
  have gen: "generateManifest U env now (Dir (Some (pre @ ?e # post))) =
       generateManifest U env now (Dir (Some (pre @ post)))"
    by (simp add: generateManifest_def skip)
  have w: "list_all2 (\<lambda>e rs. category_records U base e = Inr rs) (pre @ post) rss \<longrightarrow>
        walk U base (pre @ ?e # post) = Inr (concat rss)"
    unfolding skip using walk_complete by blast
  have g: "list_all2 (\<lambda>e rs. category_records U (ICON_CDN_BASE_URL env) e = Inr rs) (pre @ post) rss \<longrightarrow>
        generateManifest U env now (Dir (Some (pre @ ?e # post))) =
          Inr \<lparr> generatedAt = now, count = length (concat rss), icons = concat rss \<rparr>"
  proof
    assume "list_all2 (\<lambda>e rs. category_records U (ICON_CDN_BASE_URL env) e = Inr rs) (pre @ post) rss"
    from walk_complete [OF this]
    show "generateManifest U env now (Dir (Some (pre @ ?e # post))) =
          Inr \<lparr> generatedAt = now, count = length (concat rss), icons = concat rss \<rparr>"
      unfolding gen by (simp add: generateManifest_def)
  qed
  have snd: "walk U base (pre @ ?e # post) = Inr recs \<longrightarrow>
        (\<exists>rss'. list_all2 (\<lambda>e rs. category_records U base e = Inr rs) (pre @ post) rss' \<and>
                recs = concat rss')"
    unfolding skip using walk_sound by blast
  from none [of base] skip [of base] gen w g snd
  show "category_records U base ?e = Inr [] \<and>
     walk U base (pre @ ?e # post) = walk U base (pre @ post) \<and>
     generateManifest U env now (Dir (Some (pre @ ?e # post))) =
       generateManifest U env now (Dir (Some (pre @ post))) \<and>
     (list_all2 (\<lambda>e rs. category_records U base e = Inr rs) (pre @ post) rss \<longrightarrow>
        walk U base (pre @ ?e # post) = Inr (concat rss)) \<and>
     (list_all2 (\<lambda>e rs. category_records U (ICON_CDN_BASE_URL env) e = Inr rs) (pre @ post) rss \<longrightarrow>
        generateManifest U env now (Dir (Some (pre @ ?e # post))) =
          Inr \<lparr> generatedAt = now, count = length (concat rss), icons = concat rss \<rparr>) \<and>
     (walk U base (pre @ ?e # post) = Inr recs \<longrightarrow>
        (\<exists>rss'. list_all2 (\<lambda>e rs. category_records U base e = Inr rs) (pre @ post) rss' \<and>
                recs = concat rss'))"
    by blast
qed

theorem missing_subfolder_witness:
  "map_of descriptor_only (js ''SVG'') = None \<and>
   category_records plain_host None (js ''Empty'', Dir (Some descriptor_only)) = Inr [] \<and>
   generateManifest plain_host None (js ''t'')
     (Dir (Some [(js ''Empty'', Dir (Some descriptor_only)), access_time_category])) =
   generateManifest plain_host None (js ''t'') access_time_root \<and>
   (\<exists>r. generateManifest plain_host None (js ''t'')
          (Dir (Some [(js ''Empty'', Dir (Some descriptor_only)), access_time_category])) =
          Inr \<lparr> generatedAt = js ''t'', count = 1, icons = [r] \<rparr> \<and>
        category r = js ''Access Time'' \<and>
        id_r r = js ''access-time-access_time_20_filled'')"
proof -
  have keys: "js ''metadata.json'' \<noteq> js ''SVG''" by (simp add: js_def)
  then have no: "map_of descriptor_only (js ''SVG'') = None"
    by (simp add: descriptor_only_def)
  from example_record [of plain_host None "js ''t''"] obtain r where
    m: "generateManifest plain_host None (js ''t'') access_time_root =
          Inr \<lparr> generatedAt = js ''t'', count = 1, icons = [r] \<rparr>"
    and ident: "id_r r = js ''access-time-access_time_20_filled''" by blast
  from m have recs': "category_records plain_host (ICON_CDN_BASE_URL None) access_time_category = Inr [r]"
    unfolding access_time_root_def using single_entry_records by fastforce
  then have all2: "list_all2 (\<lambda>e rs. category_records plain_host (ICON_CDN_BASE_URL None) e = Inr rs)
      [access_time_category] [[r]]"
    by simp
  from category_records_mem [OF recs', of r] have cat: "category r = js ''Access Time''"
    using make_record_fields(2) by (fastforce simp: access_time_category_def)
  note T = missing_subfolder [of descriptor_only plain_host None "js ''Empty''" "[]"
      "[access_time_category]" None "js ''t''" "[[r]]", simplified append_Nil]
  from T no
  have none: "category_records plain_host None (js ''Empty'', Dir (Some descriptor_only)) = Inr []"
    and same: "generateManifest plain_host None (js ''t'')
       (Dir (Some [(js ''Empty'', Dir (Some descriptor_only)), access_time_category])) =
     generateManifest plain_host None (js ''t'') (Dir (Some [access_time_category]))"
    by blast+
  from T no all2
  have "generateManifest plain_host None (js ''t'')
       (Dir (Some [(js ''Empty'', Dir (Some descriptor_only)), access_time_category])) =
     Inr \<lparr> generatedAt = js ''t'', count = length (concat [[r]]), icons = concat [[r]] \<rparr>"
    by blast
  then have full: "generateManifest plain_host None (js ''t'')
       (Dir (Some [(js ''Empty'', Dir (Some descriptor_only)), access_time_category])) =
     Inr \<lparr> generatedAt = js ''t'', count = 1, icons = [r] \<rparr>"
    by simp
  from same have same': "generateManifest plain_host None (js ''t'')
       (Dir (Some [(js ''Empty'', Dir (Some descriptor_only)), access_time_category])) =
     generateManifest plain_host None (js ''t'') access_time_root"
    unfolding access_time_root_def .
  from no none same' full ident cat show ?thesis by blast
qed

section \<open>The write of the manifest\<close>

lemma observable_writeFile:
  "observable q (writeFile p text) d =
     (if q = p then [d p, Some [], Some text] else [d q, d q, d q])"
  by (simp add: observable_def writeFile_def)

lemma temp_rename_all_or_nothing:
  "tmp \<noteq> p \<Longrightarrow> all_or_nothing p (write_via_temp tmp p text) d text"
  by (simp add: all_or_nothing_def observable_def write_via_temp_def writeFile_def)

text \<open>
  Claim C7, as amended. The manifest is persisted by one direct write on the output
  path: a reader finds there the prior content, then an empty file, then the complete
  new text, which supersedes the prior artifact in full; no other path is touched.
\<close>

theorem write_manifest_contents:
  "observable OUTPUT_FILE (write_manifest text) d = [d OUTPUT_FILE, Some [], Some text] \<and>
   (q \<noteq> OUTPUT_FILE \<longrightarrow> observable q (write_manifest text) d = [d q, d q, d q])"
  by (simp add: write_manifest_def observable_writeFile)

text \<open>
  The claim as first stated fails: between the truncation and the write a reader finds
  an empty file, which is neither the prior manifest nor the new one.
\<close>

theorem write_manifest_counterexample:
  "\<not> all_or_nothing OUTPUT_FILE (write_manifest (js ''new manifest''))
       [OUTPUT_FILE \<mapsto> js ''old manifest''] (js ''new manifest'') \<and>
   observable OUTPUT_FILE (write_manifest (js ''new manifest''))
       [OUTPUT_FILE \<mapsto> js ''old manifest''] =
     [Some (js ''old manifest''), Some [], Some (js ''new manifest'')]"
  by (simp add: all_or_nothing_def write_manifest_def observable_writeFile js_def)

theorem write_manifest_contents_witness:
  "observable OUTPUT_FILE (write_manifest (js ''new manifest''))
       [OUTPUT_FILE \<mapsto> js ''old manifest''] =
     [Some (js ''old manifest''), Some [], Some (js ''new manifest'')] \<and>
   js ''assets_manifest.json.tmp'' \<noteq> OUTPUT_FILE \<and>
   observable (js ''assets_manifest.json.tmp'') (write_manifest (js ''new manifest''))
       [OUTPUT_FILE \<mapsto> js ''old manifest''] = [None, None, None]"
proof -
  have ne: "js ''assets_manifest.json.tmp'' \<noteq> OUTPUT_FILE"
    by (simp add: OUTPUT_FILE_def js_def)
  with write_manifest_contents [of "js ''new manifest''" "[OUTPUT_FILE \<mapsto> js ''old manifest'']"
      "js ''assets_manifest.json.tmp''"]
  show ?thesis by simp
qed

section \<open>Properties of the uploader\<close>

lemma missing_settings_absent: "missing_settings env = absent_settings env"
  by (simp add: missing_settings_def absent_settings_def required_settings_def)

lemma join_contains: "n \<in> set xs \<Longrightarrow> \<exists>a b. join sep xs = a @ n @ b"
proof (induction sep xs rule: join.induct)
  case (1 sep)
  then show ?case by simp
next
  case (2 sep x)
  then have "join sep [x] = [] @ n @ []" by simp
  then show ?case by blast
next
  case (3 sep x y ys)
  show ?case
  proof (cases "n = x")
    case True
    then have "join sep (x # y # ys) = [] @ n @ (sep @ join sep (y # ys))" by simp
    then show ?thesis by blast
  next
    case False
    with 3 obtain a b where "join sep (y # ys) = a @ n @ b" by auto
    then have "join sep (x # y # ys) = (x @ sep @ a) @ n @ b" by simp
    then show ?thesis by blast
  qed
qed

text \<open>
  Claim C8. When one or more of the four required settings are absent, loading the
  configuration fails with one error whose message enumerates all absent settings; when
  all four are present, it succeeds with their values.
\<close>

theorem getConfig_missing:
  "(absent_settings env \<noteq> [] \<longrightarrow>
      getConfig env =
        Inl (Error (js ''Missing required environment variables: '' @
                    join (js '', '') (absent_settings env))) \<and>
      (\<forall>n\<in>set (absent_settings env).
          \<exists>a b. join (js '', '') (absent_settings env) = a @ n @ b)) \<and>
   (absent_settings env = [] \<longrightarrow>
      (\<exists>config. getConfig env = Inr config \<and>
         R2_ACCOUNT_ID env = Some (accountId config) \<and>
         R2_ACCESS_KEY_ID env = Some (accessKeyId config) \<and>
         R2_SECRET_ACCESS_KEY env = Some (secretAccessKey config) \<and>
         R2_BUCKET_NAME env = Some (bucketName config)))"
proof (intro conjI impI)
  assume "absent_settings env \<noteq> []"
  then show "getConfig env =
        Inl (Error (js ''Missing required environment variables: '' @
                    join (js '', '') (absent_settings env)))"
    by (simp add: getConfig_def Let_def missing_settings_absent)
next
  show "\<forall>n\<in>set (absent_settings env). \<exists>a b. join (js '', '') (absent_settings env) = a @ n @ b"
    using join_contains by blast
next
  assume a: "absent_settings env = []"
  then have "\<not> falsy (R2_ACCOUNT_ID env)" "\<not> falsy (R2_ACCESS_KEY_ID env)"
    "\<not> falsy (R2_SECRET_ACCESS_KEY env)" "\<not> falsy (R2_BUCKET_NAME env)"
    by (auto simp: absent_settings_def required_settings_def split: if_splits)
  then have "R2_ACCOUNT_ID env = Some (asserted (R2_ACCOUNT_ID env))"
    "R2_ACCESS_KEY_ID env = Some (asserted (R2_ACCESS_KEY_ID env))"
    "R2_SECRET_ACCESS_KEY env = Some (asserted (R2_SECRET_ACCESS_KEY env))"
    "R2_BUCKET_NAME env = Some (asserted (R2_BUCKET_NAME env))"
    by (auto simp: falsy_def asserted_def split: option.splits)
  with a show "\<exists>config. getConfig env = Inr config \<and>
         R2_ACCOUNT_ID env = Some (accountId config) \<and>
         R2_ACCESS_KEY_ID env = Some (accessKeyId config) \<and>
         R2_SECRET_ACCESS_KEY env = Some (secretAccessKey config) \<and>
         R2_BUCKET_NAME env = Some (bucketName config)"
    by (simp add: getConfig_def Let_def missing_settings_absent)
qed

theorem getConfig_missing_witness:
  "absent_settings partial_env = [js ''R2_ACCESS_KEY_ID'', js ''R2_SECRET_ACCESS_KEY''] \<and>
   getConfig partial_env =
     Inl (Error (js ''Missing required environment variables: R2_ACCESS_KEY_ID, R2_SECRET_ACCESS_KEY'')) \<and>
   absent_settings complete_env = [] \<and>
   (\<exists>config. getConfig complete_env = Inr config \<and> bucketName config = js ''icons'')"
proof -
  have p: "absent_settings partial_env = [js ''R2_ACCESS_KEY_ID'', js ''R2_SECRET_ACCESS_KEY'']"
    by (simp add: absent_settings_def required_settings_def partial_env_def falsy_def js_def)
  have c: "absent_settings complete_env = []"
    by (simp add: absent_settings_def required_settings_def complete_env_def falsy_def js_def)
  have msg: "js ''Missing required environment variables: '' @
      join (js '', '') [js ''R2_ACCESS_KEY_ID'', js ''R2_SECRET_ACCESS_KEY''] =
      js ''Missing required environment variables: R2_ACCESS_KEY_ID, R2_SECRET_ACCESS_KEY''"
    by (simp add: js_def)
  from getConfig_missing [of partial_env] p
  have a: "getConfig partial_env =
     Inl (Error (js ''Missing required environment variables: R2_ACCESS_KEY_ID, R2_SECRET_ACCESS_KEY''))"
    unfolding p msg by simp
  from getConfig_missing [of complete_env] c obtain config where
    "getConfig complete_env = Inr config" "R2_BUCKET_NAME complete_env = Some (bucketName config)"
    by blast
  then have "\<exists>config. getConfig complete_env = Inr config \<and> bucketName config = js ''icons''"
    by (auto simp: complete_env_def)
  with p a c show ?thesis by blast
qed

lemma uploadBatch_readable:
  assumes "\<forall>f\<in>set b. readable W f"
  shows "\<exists>s k. uploadBatch W config b = Inr (s, k) \<and> s + k = length b"
proof -
  let ?results = "map (\<lambda>f. uploadFile W config f 5) b"
  from assms have "\<not> list_ex isl ?results"
    by (simp add: list_ex_iff uploadFile_def)
  moreover have "length (filter (\<lambda>r. r = Inr True) ?results) \<le> length ?results"
    by (rule length_filter_le)
  ultimately show ?thesis by (simp add: uploadBatch_def Let_def)
qed

lemma batch_loop_readable:
  "\<forall>b\<in>set bs. \<forall>f\<in>set b. readable W f \<Longrightarrow>
   started (batch_loop W config bs ts tf st) = st @ concat bs \<and>
   (\<exists>s k. outcome (batch_loop W config bs ts tf st) = Inr (s, k) \<and>
          s + k = ts + tf + length (concat bs))"
proof (induction bs arbitrary: ts tf st)
  case Nil
  show ?case by simp
next
  case (Cons b bs)
  then have "\<forall>f\<in>set b. readable W f" by simp
  from uploadBatch_readable [OF this] obtain s k where
    b: "uploadBatch W config b = Inr (s, k)" "s + k = length b" by blast
  from Cons.prems have "\<forall>b\<in>set bs. \<forall>f\<in>set b. readable W f" by simp
  from Cons.IH [OF this, of "ts + s" "tf + k" "st @ b"] b show ?case by auto
qed

lemma concat_make_batches: "concat (make_batches files i) = drop i files"
proof (induction files i rule: make_batches.induct)
  case (1 files i)
  show ?case
  proof (cases "i < length files")
    case True
    with 1 have "concat (make_batches files i) =
        take BATCH_SIZE (drop i files) @ drop BATCH_SIZE (drop i files)"
      by (subst make_batches.simps) (simp add: add.commute)
    then show ?thesis by (metis append_take_drop_id)
  next
    case False
    then show ?thesis by (subst make_batches.simps) simp
  qed
qed

lemma send_failures_isolated:
  assumes "getConfig env = Inr config" and "\<forall>f\<in>set files. readable W f"
  shows "started (main W env True files) = files \<and>
         (\<exists>s k. outcome (main W env True files) = Inr (s, k) \<and> s + k = length files)"
proof (cases "files = []")
  case True
  with assms show ?thesis by (simp add: main_def)
next
  case False
  have "\<forall>b\<in>set (make_batches files 0). \<forall>f\<in>set b. readable W f"
  proof (intro ballI)
    fix b f assume "b \<in> set (make_batches files 0)" "f \<in> set b"
    then have "f \<in> set (concat (make_batches files 0))" by auto
    with assms(2) show "readable W f" by (simp add: concat_make_batches)
  qed
  from batch_loop_readable [OF this, of config 0 0 "[]"] False assms(1)
  show ?thesis by (simp add: main_def concat_make_batches)
qed

text \<open>
  Claim C9, at a failing input. The first of 51 files cannot be read: \<open>uploadFile\<close>
  rejects, \<open>Promise.all\<close> rejects the first batch, and \<open>main\<close> ends with the error. The
  file of the second batch is never started and no count of failed files is returned.
\<close>

theorem read_failure_aborts:
  "main first_unreadable complete_env True fifty_one_files =
     \<lparr> started = js ''a.svg'' # b_files, outcome = Inl ReadFileError \<rparr> \<and>
   js ''c.svg'' \<notin> set (started (main first_unreadable complete_env True fifty_one_files))"
proof -
  have cfg: "\<exists>config. getConfig complete_env = Inr config"
    by (simp add: getConfig_def Let_def missing_settings_def complete_env_def falsy_def js_def)
  then obtain config where config: "getConfig complete_env = Inr config" by blast
  have lb: "length b_files = 49" by (simp add: b_files_def)
  then have len: "length fifty_one_files = 51" by (simp add: fifty_one_files_def)
  have b1: "take 50 fifty_one_files = js ''a.svg'' # b_files"
    by (simp add: fifty_one_files_def lb)
  have batches: "make_batches fifty_one_files 0 =
      (js ''a.svg'' # b_files) # make_batches fifty_one_files 50"
    by (subst make_batches.simps) (simp add: len b1 BATCH_SIZE_def)
  have rej: "uploadBatch first_unreadable config (js ''a.svg'' # b_files) = Inl ReadFileError"
    by (simp add: uploadBatch_def uploadFile_def first_unreadable_def)
  have m: "main first_unreadable complete_env True fifty_one_files =
     \<lparr> started = js ''a.svg'' # b_files, outcome = Inl ReadFileError \<rparr>"
    by (simp add: main_def config len batches rej)
  have "js ''c.svg'' \<noteq> js ''a.svg''" by (simp add: js_def)
  moreover have "js ''c.svg'' \<notin> set b_files" by (auto simp: b_files_def js_def)
  ultimately show ?thesis using m by simp
qed

end
